theory Spec2Isabelle
  imports Main "HOL-Library.Word" "HOL-Library.Char_ord" "HOL-Library.List_Lexorder"
begin

unbundle bit_operations_syntax

section \<open>The value model read by the style generator\<close>

text \<open>
  \<^verbatim>\<open>generator.cpp\<close> reads a parsed module: an ordered list of variables, each a
  qualified name and a value. A value carries the name it copies (\<^verbatim>\<open>copyOf()\<close>, empty
  when it is a literal) together with its typed data. The C++ \<^verbatim>\<open>int\<close> fields are
  modelled as \<open>int\<close>; the one place of the file where 32-bit wrap-around can show
  (\<^verbatim>\<open>value = -value\<close> in \<^verbatim>\<open>pxValueName\<close>) writes the wrap-around out. Colour channels
  are \<^verbatim>\<open>uchar\<close>, an 8-bit word. Strings are byte strings: the names of a style file
  are ASCII identifiers.
\<close>

type_synonym uchar = "8 word"
type_synonym FullName = "string list"

datatype TypeTag =
    Tag_Invalid | Tag_Int | Tag_Double | Tag_Pixels | Tag_String | Tag_Color
  | Tag_Point | Tag_Size | Tag_Cursor | Tag_Align | Tag_Margins | Tag_Font
  | Tag_Icon | Tag_Struct

datatype data_color =
  data_color (red: uchar) (green: uchar) (blue: uchar) (alpha: uchar) (fallback: string)

datatype data_point = data_point (point_x: int) (point_y: int)

datatype data_size = data_size (size_width: int) (size_height: int)

datatype data_margins =
  data_margins (margins_left: int) (margins_top: int) (margins_right: int) (margins_bottom: int)

datatype data_font = data_font (font_family: string) (font_size: int) (font_flags: int)

text \<open>
  The payload of a \<^verbatim>\<open>Double\<close> value is never read by the functions modelled here; it
  is kept as the pair (mantissa, binary exponent).
\<close>

datatype Value = Value (copyOf: FullName) (payload: Data)
and Data =
    D_Invalid
  | D_Int int
  | D_Double int int
  | D_Pixels int
  | D_String string
  | D_Color data_color
  | D_Point data_point
  | D_Size data_size
  | D_Cursor string
  | D_Align string
  | D_Margins data_margins
  | D_Font data_font
  | D_Icon "IconPart list"
  | D_Struct FullName "Variable list option"
and IconPart = IconPart (part_filename: string) (part_color: Value) (part_offset: Value)
and Variable = Variable (var_name: FullName) (var_value: Value)

fun tag_of :: "Data \<Rightarrow> TypeTag" where
  "tag_of D_Invalid = Tag_Invalid"
| "tag_of (D_Int _) = Tag_Int"
| "tag_of (D_Double _ _) = Tag_Double"
| "tag_of (D_Pixels _) = Tag_Pixels"
| "tag_of (D_String _) = Tag_String"
| "tag_of (D_Color _) = Tag_Color"
| "tag_of (D_Point _) = Tag_Point"
| "tag_of (D_Size _) = Tag_Size"
| "tag_of (D_Cursor _) = Tag_Cursor"
| "tag_of (D_Align _) = Tag_Align"
| "tag_of (D_Margins _) = Tag_Margins"
| "tag_of (D_Font _) = Tag_Font"
| "tag_of (D_Icon _) = Tag_Icon"
| "tag_of (D_Struct _ _) = Tag_Struct"

definition type_tag :: "Value \<Rightarrow> TypeTag" where
  "type_tag v = tag_of (payload v)"

text \<open>
  The typed accessors of a value (\<^verbatim>\<open>value.Color()\<close>, \<^verbatim>\<open>value.Point()\<close>) return the
  data of that type, and a default-constructed one for a value of another type.
\<close>

definition Color_of :: "Value \<Rightarrow> data_color" where
  "Color_of v = (case payload v of D_Color c \<Rightarrow> c | _ \<Rightarrow> data_color 0 0 0 255 [])"

definition Point_of :: "Value \<Rightarrow> data_point" where
  "Point_of v = (case payload v of D_Point p \<Rightarrow> p | _ \<Rightarrow> data_point 0 0)"

text \<open>\<^verbatim>\<open>name.back()\<close>: the last segment of a qualified name (parsed names are not empty).\<close>

definition name_back :: "FullName \<Rightarrow> string" where
  "name_back n = last n"

section \<open>The generated palette class\<close>

text \<open>
  \<^verbatim>\<open>writePaletteDefinition\<close> emits the class \<^verbatim>\<open>palette\<close>: raw storage \<^verbatim>\<open>_data\<close> for
  \<open>count\<close> colour cells, a status per cell and the flag \<^verbatim>\<open>_ready\<close>. A cell of the raw
  storage is \<open>None\<close> until a \<^verbatim>\<open>ColorData\<close> is constructed in it (placement new) and
  \<open>None\<close> again after its destructor ran. \<^verbatim>\<open>internal::ColorData\<close> is built from four
  channel bytes and \<^verbatim>\<open>save\<close> reads the same four bytes back, so a cell holds the four
  channels. Copying out of a cell carries the cell over as it is: the C++ read is only
  defined for a constructed cell, which is the case whenever the status of the cell is
  not \<open>Initial\<close> (\<open>cells_constructed\<close> below).
\<close>

datatype Status = Initial | Created | Loaded

datatype ColorData = ColorData uchar uchar uchar uchar

datatype TempColorData = TempColorData uchar uchar uchar uchar

record palette =
  data_cells :: "ColorData option list"
  status_cells :: "Status list"
  ready_flag :: bool

text \<open>\<^verbatim>\<open>palette() = default\<close>: every status \<open>Initial\<close>, nothing constructed, not ready.\<close>

definition palette_default :: "nat \<Rightarrow> palette" where
  "palette_default count =
     \<lparr>data_cells = replicate count None, status_cells = replicate count Initial,
      ready_flag = False\<rparr>"

text \<open>One line \<^verbatim>\<open>compute(index, fallbackIndex, {r, g, b, a});\<close> of the generated \<^verbatim>\<open>finalize\<close>.\<close>

type_synonym compute_call = "int \<times> int \<times> TempColorData"

fun compute :: "int \<Rightarrow> int \<Rightarrow> TempColorData \<Rightarrow> palette \<Rightarrow> palette" where
  "compute index fallbackIndex (TempColorData r g b a) p =
     (if status_cells p ! nat index = Initial then
        (if fallbackIndex \<ge> 0 \<and> status_cells p ! nat fallbackIndex \<noteq> Initial then
           p\<lparr>status_cells := (status_cells p)[nat index := Loaded],
             data_cells := (data_cells p)[nat index := data_cells p ! nat fallbackIndex]\<rparr>
         else
           p\<lparr>status_cells := (status_cells p)[nat index := Created],
             data_cells := (data_cells p)[nat index := Some (ColorData r g b a)]\<rparr>)
      else p)"

fun run_computes :: "compute_call list \<Rightarrow> palette \<Rightarrow> palette" where
  "run_computes [] p = p"
| "run_computes ((index, fallbackIndex, v) # cs) p =
     run_computes cs (compute index fallbackIndex v p)"

text \<open>
  \<^verbatim>\<open>palette::finalize\<close>: the guard on \<^verbatim>\<open>_ready\<close>, then the emitted \<^verbatim>\<open>compute\<close> lines in
  order.
\<close>

definition finalize :: "compute_call list \<Rightarrow> palette \<Rightarrow> palette" where
  "finalize cs p = (if ready_flag p then p else run_computes cs (p\<lparr>ready_flag := True\<rparr>))"

text \<open>\<^verbatim>\<open>palette::setData\<close>.\<close>

definition setData :: "nat \<Rightarrow> ColorData \<Rightarrow> palette \<Rightarrow> palette" where
  "setData index v p =
     (let p1 = (if status_cells p ! index = Initial
                then p\<lparr>data_cells := (data_cells p)[index := Some v]\<rparr>
                else p\<lparr>data_cells := (data_cells p)[index := Some v]\<rparr>)
      in p1\<lparr>status_cells := (status_cells p1)[index := Loaded]\<rparr>)"

text \<open>
  \<^verbatim>\<open>palette::load\<close>: the size check against the emitted constant \<open>count * 4\<close>, then one
  \<^verbatim>\<open>setData\<close> per colour from four consecutive bytes.
\<close>

definition load_cell :: "uchar list \<Rightarrow> nat \<Rightarrow> palette \<Rightarrow> palette" where
  "load_cell cache i p =
     setData i (ColorData (cache ! (i * 4 + 0)) (cache ! (i * 4 + 1))
                          (cache ! (i * 4 + 2)) (cache ! (i * 4 + 3))) p"

definition load :: "nat \<Rightarrow> uchar list \<Rightarrow> palette \<Rightarrow> bool \<times> palette" where
  "load count cache p =
     (if length cache \<noteq> count * 4 then (False, p)
      else (True, fold (load_cell cache) [0..<count] p))"

text \<open>
  \<^verbatim>\<open>palette::save\<close>: finalizes a palette that is not ready (through \<^verbatim>\<open>const_cast\<close>, so
  the palette changes), then writes red, green, blue, alpha of every cell in index
  order. Reading a cell in which nothing was constructed is undefined in C++: the
  buffer is then \<open>None\<close>.
\<close>

fun cell_bytes :: "ColorData option \<Rightarrow> uchar list option" where
  "cell_bytes None = None"
| "cell_bytes (Some (ColorData r g b a)) = Some [r, g, b, a]"

definition save :: "compute_call list \<Rightarrow> nat \<Rightarrow> palette \<Rightarrow> uchar list option \<times> palette" where
  "save cs count p =
     (let p1 = (if \<not> ready_flag p then finalize cs p else p)
      in (map_option concat (those (map (\<lambda>i. cell_bytes (data_cells p1 ! i)) [0..<count])), p1))"

text \<open>
  \<^verbatim>\<open>palette::operator=\<close>: the loop over the cells, then \<^verbatim>\<open>finalize\<close> when the palette was
  ready before and the loop cleared the flag.
\<close>

definition assign_cell :: "palette \<Rightarrow> nat \<Rightarrow> palette \<Rightarrow> palette" where
  "assign_cell other i p =
     (if status_cells other ! i = Loaded then
        (if status_cells p ! i = Initial
         then p\<lparr>data_cells := (data_cells p)[i := data_cells other ! i]\<rparr>
         else p\<lparr>data_cells := (data_cells p)[i := data_cells other ! i]\<rparr>)
      else if status_cells p ! i \<noteq> Initial then
        p\<lparr>data_cells := (data_cells p)[i := None],
          status_cells := (status_cells p)[i := Initial],
          ready_flag := False\<rparr>
      else p)"

definition assign_loop :: "nat \<Rightarrow> palette \<Rightarrow> palette \<Rightarrow> palette" where
  "assign_loop count other p = fold (assign_cell other) [0..<count] p"

definition operator_assign :: "compute_call list \<Rightarrow> nat \<Rightarrow> palette \<Rightarrow> palette \<Rightarrow> palette" where
  "operator_assign cs count other p =
     (let wasReady = ready_flag p;
          p1 = assign_loop count other p
      in if wasReady \<and> \<not> ready_flag p1 then finalize cs p1 else p1)"

section \<open>What the generator emits for a palette module\<close>

text \<open>
  \<^verbatim>\<open>QMap\<close> keeps its entries sorted by key: an association list in ascending key
  order. \<^verbatim>\<open>map[key] = v\<close> and \<^verbatim>\<open>insert(key, v)\<close> replace the value of a key that is
  present; \<^verbatim>\<open>value(key, d)\<close> is \<open>d\<close> for a key that is absent.
\<close>

fun qmap_insert :: "'k::linorder \<Rightarrow> 'v \<Rightarrow> ('k \<times> 'v) list \<Rightarrow> ('k \<times> 'v) list" where
  "qmap_insert k v [] = [(k, v)]"
| "qmap_insert k v ((k', v') # m) =
     (if k < k' then (k, v) # (k', v') # m
      else if k = k' then (k, v) # m
      else (k', v') # qmap_insert k v m)"

definition qmap_value :: "('k \<times> 'v) list \<Rightarrow> 'k \<Rightarrow> 'v \<Rightarrow> 'v" where
  "qmap_value m k d = (case map_of m k of None \<Rightarrow> d | Some v \<Rightarrow> v)"

definition qmap_contains :: "('k \<times> 'v) list \<Rightarrow> 'k \<Rightarrow> bool" where
  "qmap_contains m k = (map_of m k \<noteq> None)"

text \<open>
  Modelled from the spec: \<^verbatim>\<open>Module::enumVariables\<close> is defined outside
  \<^verbatim>\<open>generator.cpp\<close>. A module owns an ordered set of variables; the enumeration calls
  the visitor on each in declaration order, stops at the first visitor that returns
  false and returns false then.
\<close>

fun enumVariables :: "(Variable \<Rightarrow> 's \<Rightarrow> bool \<times> 's) \<Rightarrow> Variable list \<Rightarrow> 's \<Rightarrow> bool \<times> 's" where
  "enumVariables f [] s = (True, s)"
| "enumVariables f (v # vs) s =
     (case f v s of (True, s') \<Rightarrow> enumVariables f vs s' | (False, s') \<Rightarrow> (False, s'))"

text \<open>\<^verbatim>\<open>QString::number\<close> of an \<^verbatim>\<open>int\<close>, and the decimal text a stream writes for one.\<close>

definition digit_char :: "nat \<Rightarrow> char" where
  "digit_char d = ''0123456789'' ! d"

function number_nat :: "nat \<Rightarrow> string" where
  "number_nat n = (if n < 10 then [digit_char n] else number_nat (n div 10) @ [digit_char (n mod 10)])"
  by pat_completeness auto
termination
  by (relation "measure id") auto

definition number :: "int \<Rightarrow> string" where
  "number i = (if i < 0 then CHR ''-'' # number_nat (nat (- i)) else number_nat (nat i))"

text \<open>\<^verbatim>\<open>colorFallbackName\<close>.\<close>

definition colorFallbackName :: "Value \<Rightarrow> string" where
  "colorFallbackName v =
     (let copy = copyOf v in if copy \<noteq> [] then name_back copy else fallback (Color_of v))"

text \<open>
  \<^verbatim>\<open>valueAssignmentCode\<close> on a value of tag \<^verbatim>\<open>Color\<close>, the only tag of a palette
  variable: the copy branch (with \<^verbatim>\<open>.clone()\<close>) and the colour literal.
\<close>

definition colorAssignmentCode :: "Value \<Rightarrow> string" where
  "colorAssignmentCode v =
     (let copy = copyOf v in
      if copy \<noteq> [] then ''st::'' @ name_back copy @ ''.clone()''
      else (let c = Color_of v in
            ''{ '' @ number (uint (red c)) @ '', '' @ number (uint (green c)) @ '', ''
              @ number (uint (blue c)) @ '', '' @ number (uint (alpha c)) @ '' }''))"

text \<open>
  The first pass of \<^verbatim>\<open>writeSetPaletteColor\<close>: per variable, the palette index, the entry
  of \<^verbatim>\<open>paletteIndices_\<close>, one \<^verbatim>\<open>compute\<close> line and the text added to the checksum
  string.
\<close>

record palette_gen =
  indexInPalette :: int
  paletteIndices :: "(string \<times> int) list"
  checksumString :: string
  compute_lines :: "compute_call list"

definition palette_gen_start :: palette_gen where
  "palette_gen_start =
     \<lparr>indexInPalette = 0, paletteIndices = [], checksumString = [], compute_lines = []\<rparr>"

definition set_palette_visitor :: "Variable \<Rightarrow> palette_gen \<Rightarrow> bool \<times> palette_gen" where
  "set_palette_visitor variable g =
     (let name = name_back (var_name variable);
          index = indexInPalette g;
          g1 = g\<lparr>indexInPalette := index + 1,
                 paletteIndices := qmap_insert name index (paletteIndices g)\<rparr>
      in if type_tag (var_value variable) \<noteq> Tag_Color then (False, g1)
         else
           (let color = Color_of (var_value variable);
                fallbackIndex =
                  qmap_value (paletteIndices g1) (colorFallbackName (var_value variable)) (- 1)
            in (True,
                g1\<lparr>compute_lines := compute_lines g1 @
                      [(index, fallbackIndex,
                        TempColorData (red color) (green color) (blue color) (alpha color))],
                    checksumString := checksumString g1 @
                      CHR ''&'' # name @ CHR '':'' # colorAssignmentCode (var_value variable)\<rparr>)))"

definition writeSetPaletteColor :: "Variable list \<Rightarrow> bool \<times> palette_gen" where
  "writeSetPaletteColor vars = enumVariables set_palette_visitor vars palette_gen_start"

text \<open>
  The constants the emitted class is built from: the \<^verbatim>\<open>compute\<close> lines of
  \<^verbatim>\<open>finalize\<close> and \<open>count\<close>. \<^verbatim>\<open>writePaletteDefinition\<close> refuses a module with a variable
  that is not a colour.
\<close>

definition palette_module :: "Variable list \<Rightarrow> bool" where
  "palette_module vars = list_all (\<lambda>v. type_tag (var_value v) = Tag_Color) vars"

definition palette_computes :: "Variable list \<Rightarrow> compute_call list" where
  "palette_computes vars = compute_lines (snd (writeSetPaletteColor vars))"

definition palette_count :: "Variable list \<Rightarrow> nat" where
  "palette_count vars = nat (indexInPalette (snd (writeSetPaletteColor vars)))"

text \<open>The methods of the class emitted for the module \<open>vars\<close>.\<close>

definition palette_finalize :: "Variable list \<Rightarrow> palette \<Rightarrow> palette" where
  "palette_finalize vars = finalize (palette_computes vars)"

definition palette_save :: "Variable list \<Rightarrow> palette \<Rightarrow> uchar list option \<times> palette" where
  "palette_save vars = save (palette_computes vars) (palette_count vars)"

definition palette_load :: "Variable list \<Rightarrow> uchar list \<Rightarrow> palette \<Rightarrow> bool \<times> palette" where
  "palette_load vars = load (palette_count vars)"

definition palette_assign :: "Variable list \<Rightarrow> palette \<Rightarrow> palette \<Rightarrow> palette" where
  "palette_assign vars = operator_assign (palette_computes vars) (palette_count vars)"

text \<open>
  The states a palette of \<open>count\<close> colours can be in: both arrays have \<open>count\<close> cells, a
  cell whose status is not \<open>Initial\<close> holds a constructed \<^verbatim>\<open>ColorData\<close>, and a ready
  palette has no \<open>Initial\<close> cell.
\<close>

definition cells_constructed :: "nat \<Rightarrow> palette \<Rightarrow> bool" where
  "cells_constructed count p =
     (length (status_cells p) = count \<and> length (data_cells p) = count \<and>
      list_all (\<lambda>i. status_cells p ! i = Initial \<or> data_cells p ! i \<noteq> None) [0..<count])"

definition ready_complete :: "palette \<Rightarrow> bool" where
  "ready_complete p = (\<not> ready_flag p \<or> Initial \<notin> set (status_cells p))"

section \<open>The palette checksum\<close>

text \<open>
  \<^verbatim>\<open>Crc32Table\<close> and \<^verbatim>\<open>hashCrc32\<close>, on \<^verbatim>\<open>quint32\<close> as 32-bit words. \<^verbatim>\<open>reflect(val, ch)\<close>
  runs \<open>i\<close> from 1 to \<open>ch\<close>; its state is the pair of \<^verbatim>\<open>val\<close> and \<^verbatim>\<open>result\<close>.
\<close>

definition reflect_step :: "nat \<Rightarrow> nat \<Rightarrow> 32 word \<times> 32 word \<Rightarrow> 32 word \<times> 32 word" where
  "reflect_step ch i s =
     (case s of (val, result) \<Rightarrow>
        (drop_bit 1 val, if val AND 1 \<noteq> 0 then result OR push_bit (ch - i) 1 else result))"

definition reflect :: "32 word \<Rightarrow> nat \<Rightarrow> 32 word" where
  "reflect val ch = snd (fold (reflect_step ch) [1..<ch + 1] (val, 0))"

definition poly :: "32 word" where
  "poly = 0x04c11db7"

definition table_step :: "32 word \<Rightarrow> 32 word" where
  "table_step d = push_bit 1 d XOR (if d AND push_bit 31 1 \<noteq> 0 then poly else 0)"

definition Crc32Table :: "nat \<Rightarrow> 32 word" where
  "Crc32Table i =
     reflect (fold (\<lambda>j. table_step) [0..<8] (push_bit 24 (reflect (of_nat i) 8))) 32"

definition hashCrc32_step :: "uchar \<Rightarrow> 32 word \<Rightarrow> 32 word" where
  "hashCrc32_step b crc = drop_bit 8 crc XOR Crc32Table (unat ((crc AND 0xFF) XOR ucast b))"

definition hashCrc32 :: "uchar list \<Rightarrow> 32 word" where
  "hashCrc32 buffer = fold hashCrc32_step buffer 0xffffffff XOR 0xffffffff"

text \<open>
  The value \<^verbatim>\<open>palette::Checksum()\<close> returns: \<^verbatim>\<open>hashCrc32\<close> of the checksum string,
  cast to \<^verbatim>\<open>qint32\<close> and emitted as a signed decimal literal.
\<close>

definition palette_checksum :: "Variable list \<Rightarrow> int" where
  "palette_checksum vars =
     sint (hashCrc32 (map of_char (checksumString (snd (writeSetPaletteColor vars)))))"

text \<open>
  The reference the checksum is compared with, written from the specification: the
  reflected CRC-32 of IEEE 802.3, bit by bit. The register starts at \<open>0xFFFFFFFF\<close>;
  each byte is added to the low end and the register is divided eight times by the
  polynomial \<open>0x04C11DB7\<close> in its reflected form \<open>0xEDB88320\<close>; the result is
  complemented.
\<close>

definition crc32_bit :: "32 word \<Rightarrow> 32 word" where
  "crc32_bit c = (if bit c 0 then drop_bit 1 c XOR 0xEDB88320 else drop_bit 1 c)"

definition crc32_byte :: "uchar \<Rightarrow> 32 word \<Rightarrow> 32 word" where
  "crc32_byte b c = (crc32_bit ^^ 8) (c XOR ucast b)"

definition crc32_ieee :: "uchar list \<Rightarrow> 32 word" where
  "crc32_ieee bs = fold crc32_byte bs 0xFFFFFFFF XOR 0xFFFFFFFF"

text \<open>The string the specification hashes: per colour variable, \<open>&name:literal\<close>.\<close>

definition checksum_text :: "Variable list \<Rightarrow> string" where
  "checksum_text vars =
     concat (map (\<lambda>v. ''&'' @ name_back (var_name v) @ '':'' @ colorAssignmentCode (var_value v)) vars)"

section \<open>The generated name matcher\<close>

text \<open>
  The second part of \<^verbatim>\<open>writeSetPaletteColor\<close> writes the body of
  \<^verbatim>\<open>getPaletteIndex\<close> as text. The text is kept here as the sequence of the pieces the
  generator writes (white space and indentation left out):
  \<^item> \<open>CloseSwitch\<close> for \<^verbatim>\<open>};\<close>
  \<^item> \<open>CaseLabel c\<close> for \<^verbatim>\<open>case 'c':\<close>
  \<^item> \<open>IfSizeEq n\<close> for \<^verbatim>\<open>if (size == n)\<close>
  \<^item> \<open>IfSizeGtSwitch k\<close> for \<^verbatim>\<open>if (size > k) switch (data[k]) {\<close>
  \<^item> \<open>Return sz mc index\<close> for \<^verbatim>\<open>return (size == n && !memcmp(data + k, "lit", len)) ? index : -1;\<close>
    where \<open>sz\<close> is absent when the size test is not written and \<open>mc\<close> is absent when
    the \<^verbatim>\<open>memcmp\<close> is not written.
\<close>

datatype matcher_token =
    CloseSwitch
  | CaseLabel char
  | IfSizeEq int
  | IfSizeGtSwitch int
  | Return "int option" "(int \<times> string \<times> int) option" int

text \<open>\<^verbatim>\<open>QString::mid(position, n)\<close>: a negative \<open>n\<close> takes the rest of the string.\<close>

definition qmid :: "string \<Rightarrow> int \<Rightarrow> int \<Rightarrow> string" where
  "qmid s position n =
     (if n < 0 then drop (nat position) s else take (nat n) (drop (nat position) s))"

record matcher_gen =
  already :: int
  prefix_text :: string
  emitted :: "matcher_token list"

definition matcher_gen_start :: matcher_gen where
  "matcher_gen_start = \<lparr>already = 0, prefix_text = [], emitted = []\<rparr>"

definition close_cond :: "string \<Rightarrow> matcher_gen \<Rightarrow> bool" where
  "close_cond name g =
     (length (prefix_text g) > length name \<or>
      (prefix_text g \<noteq> [] \<and>
       qmid (prefix_text g) 0 (already g - 1) \<noteq> qmid name 0 (already g - 1)))"

definition close_one :: "matcher_gen \<Rightarrow> matcher_gen" where
  "close_one g =
     g\<lparr>emitted := emitted g @ [CloseSwitch],
       prefix_text := butlast (prefix_text g),
       already := already g - 1\<rparr>"

text \<open>The first \<^verbatim>\<open>while\<close> of the loop body: close the switches the name does not share.\<close>

function close_loop :: "string \<Rightarrow> matcher_gen \<Rightarrow> matcher_gen" where
  "close_loop name g = (if close_cond name g then close_loop name (close_one g) else g)"
  by pat_completeness auto
termination
  by (relation "measure (\<lambda>(name, g). length (prefix_text g))")
     (auto simp: close_cond_def close_one_def)

text \<open>The \<^verbatim>\<open>if\<close> after it: a new \<^verbatim>\<open>case\<close> label in the innermost open switch.\<close>

definition case_switch :: "string \<Rightarrow> matcher_gen \<Rightarrow> matcher_gen" where
  "case_switch name g =
     (if prefix_text g \<noteq> [] \<and>
         prefix_text g ! nat (already g - 1) \<noteq> name ! nat (already g - 1)
      then g\<lparr>emitted := emitted g @ [CaseLabel (name ! nat (already g - 1))],
             prefix_text := (prefix_text g)[nat (already g - 1) := name ! nat (already g - 1)]\<rparr>
      else g)"

text \<open>The second \<^verbatim>\<open>while\<close>: open one switch per character shared with the next name.\<close>

function open_loop :: "string \<Rightarrow> string \<Rightarrow> matcher_gen \<Rightarrow> matcher_gen" where
  "open_loop name next g =
     (if int (length name) > already g then
        (if qmid name 0 (already g) \<noteq> qmid next 0 (already g) then g
         else if int (length next) \<le> already g then
           g\<lparr>emitted := emitted g @ [IfSizeEq (int (length name))]\<rparr>
         else
           open_loop name next
             (g\<lparr>emitted := emitted g @
                   [IfSizeGtSwitch (already g), CaseLabel (name ! nat (already g))],
                 prefix_text := prefix_text g @ [name ! nat (already g)],
                 already := already g + 1\<rparr>))
      else g)"
  by pat_completeness auto
termination
  by (relation "measure (\<lambda>(name, next, g). nat (int (length name) - already g))") auto

text \<open>The \<^verbatim>\<open>return\<close> statement that ends the loop body.\<close>

definition write_return :: "string \<Rightarrow> int \<Rightarrow> string \<Rightarrow> matcher_gen \<Rightarrow> matcher_gen" where
  "write_return name index next g =
     (let sz = (if int (length name) = already g \<or>
                   qmid name 0 (already g) \<noteq> qmid next 0 (already g)
                then Some (int (length name)) else None);
          mc = (if already g \<noteq> int (length name)
                then Some (already g, qmid name (already g) (- 1), int (length name) - already g)
                else None)
      in g\<lparr>emitted := emitted g @ [Return sz mc index]\<rparr>)"

definition matcher_name :: "string \<Rightarrow> int \<Rightarrow> string \<Rightarrow> matcher_gen \<Rightarrow> matcher_gen" where
  "matcher_name name index next g =
     write_return name index next (open_loop name next (case_switch name (close_loop name g)))"

text \<open>
  The loop runs over \<^verbatim>\<open>paletteIndices_\<close> from its last key to its first; \<open>next\<close> is
  the key before the current one, and the empty string at the first key.
\<close>

fun matcher_names :: "(string \<times> int) list \<Rightarrow> matcher_gen \<Rightarrow> matcher_gen" where
  "matcher_names [] g = g"
| "matcher_names ((name, index) # rest) g =
     matcher_names rest
       (matcher_name name index (case rest of [] \<Rightarrow> [] | (n, _) # _ \<Rightarrow> n) g)"

text \<open>The \<^verbatim>\<open>while (!prefix.isEmpty())\<close> after the loop.\<close>

function close_all :: "matcher_gen \<Rightarrow> matcher_gen" where
  "close_all g = (if prefix_text g \<noteq> [] then close_all (close_one g) else g)"
  by pat_completeness auto
termination
  by (relation "measure (\<lambda>g. length (prefix_text g))") (auto simp: close_one_def)

definition getPaletteIndex_text :: "(string \<times> int) list \<Rightarrow> matcher_token list" where
  "getPaletteIndex_text indices = emitted (close_all (matcher_names (rev indices) matcher_gen_start))"

text \<open>
  The meaning of the emitted text as C++. \<open>skip_switch\<close> leaves a switch body: the text
  after the \<^verbatim>\<open>};\<close> that closes it. \<open>find_case\<close> looks for the label of a character
  among the labels of this switch (not those of a switch nested in it) and gives the
  text after the label.
\<close>

fun skip_switch :: "nat \<Rightarrow> matcher_token list \<Rightarrow> matcher_token list" where
  "skip_switch d [] = []"
| "skip_switch d (IfSizeGtSwitch k # ts) = skip_switch (Suc d) ts"
| "skip_switch d (CloseSwitch # ts) = (case d of 0 \<Rightarrow> ts | Suc d' \<Rightarrow> skip_switch d' ts)"
| "skip_switch d (CaseLabel c # ts) = skip_switch d ts"
| "skip_switch d (IfSizeEq n # ts) = skip_switch d ts"
| "skip_switch d (Return sz mc index # ts) = skip_switch d ts"

fun find_case :: "char \<Rightarrow> nat \<Rightarrow> matcher_token list \<Rightarrow> matcher_token list option" where
  "find_case c d [] = None"
| "find_case c d (CaseLabel c' # ts) =
     (if d = 0 \<and> c' = c then Some ts else find_case c d ts)"
| "find_case c d (IfSizeGtSwitch k # ts) = find_case c (Suc d) ts"
| "find_case c d (CloseSwitch # ts) = (case d of 0 \<Rightarrow> None | Suc d' \<Rightarrow> find_case c d' ts)"
| "find_case c d (IfSizeEq n # ts) = find_case c d ts"
| "find_case c d (Return sz mc index # ts) = find_case c d ts"

text \<open>
  The value of a \<^verbatim>\<open>return\<close> statement on the input \<open>data\<close> (\<^verbatim>\<open>size\<close> is its length).
  \<^verbatim>\<open>memcmp(data + k, "lit", len)\<close> is zero when the \<open>len\<close> bytes from position \<open>k\<close> are
  those of the literal.
\<close>

definition return_value :: "string \<Rightarrow> int option \<Rightarrow> (int \<times> string \<times> int) option \<Rightarrow> int \<Rightarrow> int" where
  "return_value data sz mc index =
     (if (case sz of None \<Rightarrow> True | Some n \<Rightarrow> int (length data) = n) \<and>
         (case mc of None \<Rightarrow> True
          | Some (k, lit, len) \<Rightarrow> take (nat len) (drop (nat k) data) = take (nat len) lit)
      then index else - 1)"

lemma skip_switch_length: "length (skip_switch d ts) \<le> length ts"
  by (induction d ts rule: skip_switch.induct) (auto split: nat.splits)

lemma find_case_length: "find_case c d ts = Some ts' \<Longrightarrow> length ts' < length ts"
  by (induction c d ts rule: find_case.induct) (auto split: nat.splits if_splits)

text \<open>
  Running the text, statement by statement. A label or the end of a switch body passed
  in sequence does nothing (control falls through); a switch jumps to the label of
  \<^verbatim>\<open>data[k]\<close> and is left when it has no such label; the text ends with
  \<^verbatim>\<open>return -1;\<close>. \<open>None\<close> stands for text that is not a statement sequence (an
  \<^verbatim>\<open>if (size == n)\<close> with no \<^verbatim>\<open>return\<close> after it).
\<close>

function run_matcher :: "string \<Rightarrow> matcher_token list \<Rightarrow> int option" where
  "run_matcher data [] = Some (- 1)"
| "run_matcher data (CloseSwitch # ts) = run_matcher data ts"
| "run_matcher data (CaseLabel c # ts) = run_matcher data ts"
| "run_matcher data (Return sz mc index # ts) = Some (return_value data sz mc index)"
| "run_matcher data (IfSizeEq n # Return sz mc index # ts) =
     (if int (length data) = n then Some (return_value data sz mc index)
      else run_matcher data ts)"
| "run_matcher data [IfSizeEq n] = None"
| "run_matcher data (IfSizeEq n # CloseSwitch # ts) = None"
| "run_matcher data (IfSizeEq n # CaseLabel c # ts) = None"
| "run_matcher data (IfSizeEq n # IfSizeEq m # ts) = None"
| "run_matcher data (IfSizeEq n # IfSizeGtSwitch k # ts) = None"
| "run_matcher data (IfSizeGtSwitch k # ts) =
     (if int (length data) > k then
        (case find_case (data ! nat k) 0 ts of
           Some ts' \<Rightarrow> run_matcher data ts'
         | None \<Rightarrow> run_matcher data (skip_switch 0 ts))
      else run_matcher data (skip_switch 0 ts))"
  by pat_completeness auto
termination
  by (relation "measure (\<lambda>(data, ts). length ts)")
     (auto simp: le_imp_less_Suc skip_switch_length dest: find_case_length)

text \<open>\<^verbatim>\<open>getPaletteIndex(name)\<close> of the palette module \<open>vars\<close>.\<close>

definition getPaletteIndex :: "Variable list \<Rightarrow> string \<Rightarrow> int option" where
  "getPaletteIndex vars name =
     run_matcher name (getPaletteIndex_text (paletteIndices (snd (writeSetPaletteColor vars))))"

section \<open>The collector of unique values\<close>

text \<open>
  \<^verbatim>\<open>pxValueName\<close>. The negation \<^verbatim>\<open>value = -value\<close> is 32-bit: it wraps at the least
  \<^verbatim>\<open>int\<close>, whose name keeps the sign that \<^verbatim>\<open>QString::number\<close> writes.
\<close>

definition int32_wrap :: "int \<Rightarrow> int" where
  "int32_wrap i = (i + 2 ^ 31) mod 2 ^ 32 - 2 ^ 31"

definition pxValueName :: "int \<Rightarrow> string" where
  "pxValueName v =
     (if v < 0 then (''px'' @ ''m'') @ number (int32_wrap (- v)) else ''px'' @ number v)"

text \<open>
  The three tables of the generator (\<^verbatim>\<open>pxValues_\<close>, \<^verbatim>\<open>fontFamilies_\<close>, \<^verbatim>\<open>iconMasks_\<close>,
  each a \<^verbatim>\<open>QMap\<close>) and the two counters of \<^verbatim>\<open>collectUniqueValues\<close>.
\<close>

record collected =
  pxValues :: "(int \<times> bool) list"
  fontFamilies :: "(string \<times> int) list"
  iconMasks :: "(string \<times> int) list"
  fontFamilyIndex :: int
  iconMaskIndex :: int

definition collected_start :: collected where
  "collected_start =
     \<lparr>pxValues = [], fontFamilies = [], iconMasks = [], fontFamilyIndex = 0, iconMaskIndex = 0\<rparr>"

definition insert_px :: "int \<Rightarrow> collected \<Rightarrow> collected" where
  "insert_px v c = c\<lparr>pxValues := qmap_insert v True (pxValues c)\<rparr>"

definition collect_font :: "data_font \<Rightarrow> collected \<Rightarrow> collected" where
  "collect_font v c =
     (let c1 = insert_px (font_size v) c
      in if font_family v \<noteq> [] \<and> \<not> qmap_contains (fontFamilies c1) (font_family v)
         then c1\<lparr>fontFamilyIndex := fontFamilyIndex c1 + 1,
                 fontFamilies := qmap_insert (font_family v) (fontFamilyIndex c1 + 1) (fontFamilies c1)\<rparr>
         else c1)"

definition collect_part :: "IconPart \<Rightarrow> collected \<Rightarrow> collected" where
  "collect_part part c =
     (let c1 = insert_px (point_x (Point_of (part_offset part))) c;
          c2 = insert_px (point_y (Point_of (part_offset part))) c1
      in if \<not> qmap_contains (iconMasks c2) (part_filename part)
         then c2\<lparr>iconMaskIndex := iconMaskIndex c2 + 1,
                 iconMasks := qmap_insert (part_filename part) (iconMaskIndex c2 + 1) (iconMasks c2)\<rparr>
         else c2)"

text \<open>
  The visitor \<^verbatim>\<open>collector\<close> of \<^verbatim>\<open>collectUniqueValues\<close>, with the loop over the fields of
  a struct value (\<open>collect_fields\<close>), which stops at the first field that fails.
\<close>

fun collector :: "Variable \<Rightarrow> collected \<Rightarrow> bool \<times> collected"
  and collect_fields :: "Variable list \<Rightarrow> collected \<Rightarrow> bool \<times> collected" where
  "collector (Variable n (Value copy d)) c =
     (if copy \<noteq> [] then (True, c)
      else (case d of
          D_Invalid \<Rightarrow> (True, c)
        | D_Int i \<Rightarrow> (True, c)
        | D_Double m e \<Rightarrow> (True, c)
        | D_String s \<Rightarrow> (True, c)
        | D_Color col \<Rightarrow> (True, c)
        | D_Cursor s \<Rightarrow> (True, c)
        | D_Align s \<Rightarrow> (True, c)
        | D_Pixels v \<Rightarrow> (True, insert_px v c)
        | D_Point v \<Rightarrow> (True, insert_px (point_y v) (insert_px (point_x v) c))
        | D_Size v \<Rightarrow> (True, insert_px (size_height v) (insert_px (size_width v) c))
        | D_Margins v \<Rightarrow>
            (True, insert_px (margins_bottom v) (insert_px (margins_right v)
                     (insert_px (margins_top v) (insert_px (margins_left v) c))))
        | D_Font v \<Rightarrow> (True, collect_font v c)
        | D_Icon parts \<Rightarrow> (True, fold collect_part parts c)
        | D_Struct nm flds \<Rightarrow>
            (case flds of None \<Rightarrow> (False, c) | Some fs \<Rightarrow> collect_fields fs c)))"
| "collect_fields [] c = (True, c)"
| "collect_fields (field # fs) c =
     (case collector field c of
        (False, c') \<Rightarrow> (False, c')
      | (True, c') \<Rightarrow> collect_fields fs c')"

definition collectUniqueValues :: "Variable list \<Rightarrow> bool \<times> collected" where
  "collectUniqueValues vars = enumVariables collector vars collected_start"

text \<open>
  \<^verbatim>\<open>writePxValuesInit\<close> declares one constant per key of \<^verbatim>\<open>pxValues_\<close>, in key order:
  \<^verbatim>\<open>int <pxValueName(key)> = <key>;\<close>. A declaration is kept as the pair of the name and
  the value.
\<close>

definition px_constants :: "collected \<Rightarrow> (string \<times> int) list" where
  "px_constants c = map (\<lambda>(k, u). (pxValueName k, k)) (pxValues c)"

text \<open>
  The pixel quantities of a module as the specification lists them, one entry per
  occurrence: \<^verbatim>\<open>Pixels\<close>, the fields of \<^verbatim>\<open>Point\<close>, \<^verbatim>\<open>Size\<close> and \<^verbatim>\<open>Margins\<close>, the size of a
  \<^verbatim>\<open>Font\<close>, the offsets of the parts of an \<^verbatim>\<open>Icon\<close>, through the fields of struct
  values; a variable or field that is an alias has none.
\<close>

fun px_occurrences :: "Variable \<Rightarrow> int list"
  and px_occurrences_fields :: "Variable list \<Rightarrow> int list" where
  "px_occurrences (Variable n (Value copy d)) =
     (if copy \<noteq> [] then []
      else (case d of
          D_Pixels v \<Rightarrow> [v]
        | D_Point v \<Rightarrow> [point_x v, point_y v]
        | D_Size v \<Rightarrow> [size_width v, size_height v]
        | D_Margins v \<Rightarrow> [margins_left v, margins_top v, margins_right v, margins_bottom v]
        | D_Font v \<Rightarrow> [font_size v]
        | D_Icon parts \<Rightarrow>
            concat (map (\<lambda>part. [point_x (Point_of (part_offset part)),
                                  point_y (Point_of (part_offset part))]) parts)
        | D_Struct nm flds \<Rightarrow>
            (case flds of None \<Rightarrow> [] | Some fs \<Rightarrow> px_occurrences_fields fs)
        | _ \<Rightarrow> []))"
| "px_occurrences_fields [] = []"
| "px_occurrences_fields (field # fs) = px_occurrences field @ px_occurrences_fields fs"

section \<open>The icon mask compositor\<close>

text \<open>
  Of a \<^verbatim>\<open>QImage\<close> the compositor decides on the size and the pixel format only. A null
  image has width and height 0 and the invalid format 0. Constructing an image of a
  width or height that is not positive, or of the invalid format, gives the null image;
  so does scaling a null image or scaling to an empty size. The pixel format of a scaled
  image is not read by the compositor.
\<close>

datatype QImage = NullImage | Image int int nat

fun isNull :: "QImage \<Rightarrow> bool" where
  "isNull NullImage = True"
| "isNull (Image w h f) = False"

fun width :: "QImage \<Rightarrow> int" where
  "width NullImage = 0"
| "width (Image w h f) = w"

fun height :: "QImage \<Rightarrow> int" where
  "height NullImage = 0"
| "height (Image w h f) = h"

fun format :: "QImage \<Rightarrow> nat" where
  "format NullImage = 0"
| "format (Image w h f) = f"

definition QImage_new :: "int \<Rightarrow> int \<Rightarrow> nat \<Rightarrow> QImage" where
  "QImage_new w h f = (if w \<le> 0 \<or> h \<le> 0 \<or> f = 0 then NullImage else Image w h f)"

definition scaled :: "QImage \<Rightarrow> int \<Rightarrow> int \<Rightarrow> QImage" where
  "scaled img w h =
     (if isNull img then NullImage
      else if w \<le> 0 \<or> h \<le> 0 then NullImage
      else Image w h (format img))"

datatype icon_error =
    kErrorFileNotOpened string
  | kErrorBadIconFormat
  | kErrorBadIconSize
  | kErrorInternal string
  | EmptyOutput

text \<open>\<^verbatim>\<open>QString::split\<close> at a character, empty parts kept.\<close>

fun split_at :: "char \<Rightarrow> string \<Rightarrow> string list" where
  "split_at sep [] = [[]]"
| "split_at sep (c # cs) =
     (if c = sep then [] # split_at sep cs
      else (case split_at sep cs of [] \<Rightarrow> [[c]] | w # ws \<Rightarrow> (c # w) # ws))"

text \<open>
  The loop over the modifier names. \<^verbatim>\<open>GetModifier\<close> is the modifier registry, a
  parameter here: a registered modifier changes the pair of images in place.
\<close>

type_synonym modifier = "QImage \<times> QImage \<Rightarrow> QImage \<times> QImage"

fun apply_modifiers ::
  "(string \<Rightarrow> modifier option) \<Rightarrow> string \<Rightarrow> string list \<Rightarrow> QImage \<times> QImage
     \<Rightarrow> icon_error + QImage \<times> QImage" where
  "apply_modifiers GetModifier filepath [] imgs = Inr imgs"
| "apply_modifiers GetModifier filepath (modifierName # ms) imgs =
     (case GetModifier modifierName of
        Some m \<Rightarrow> apply_modifiers GetModifier filepath ms (m imgs)
      | None \<Rightarrow> Inl (kErrorInternal filepath))"

text \<open>
  \<^verbatim>\<open>iconMaskValuePng\<close>. The file system and \<^verbatim>\<open>structure::data::pxAdjust\<close> are outside
  \<^verbatim>\<open>generator.cpp\<close> and are parameters: \<open>load_image\<close> gives the image of a file name
  (the null image when it cannot be read) and \<open>pxAdjust\<close> the adjusted pixel value. The
  function returns PNG bytes, empty on every failure; here it returns the composed
  canvas that is encoded, or the error that was logged. Encoding writes nothing for a
  null canvas (\<open>EmptyOutput\<close>).
\<close>

definition iconMaskValuePng ::
  "(int \<Rightarrow> int \<Rightarrow> int) \<Rightarrow> (string \<Rightarrow> modifier option) \<Rightarrow> (string \<Rightarrow> QImage) \<Rightarrow> string
     \<Rightarrow> icon_error + QImage" where
  "iconMaskValuePng pxAdjust GetModifier load_image filepath0 =
     (let pathAndModifiers = split_at CHR ''-'' filepath0;
          filepath = hd pathAndModifiers;
          modifiers = tl pathAndModifiers;
          png100x = load_image (filepath @ ''.png'');
          png200x = load_image (filepath @ ''@2x.png'')
      in if isNull png100x then Inl (kErrorFileNotOpened (filepath @ ''.png''))
         else if isNull png200x then Inl (kErrorFileNotOpened (filepath @ ''@2x.png''))
         else if format png100x \<noteq> format png200x then Inl kErrorBadIconFormat
         else if width png100x * 2 \<noteq> width png200x \<or> height png100x * 2 \<noteq> height png200x
           then Inl kErrorBadIconSize
         else (case apply_modifiers GetModifier filepath modifiers (png100x, png200x) of
             Inl e \<Rightarrow> Inl e
           | Inr (png100x, png200x) \<Rightarrow>
               (let png125x = scaled png200x (pxAdjust (width png100x) 5) (pxAdjust (height png100x) 5);
                    png150x = scaled png200x (pxAdjust (width png100x) 6) (pxAdjust (height png100x) 6);
                    composed = QImage_new (width png200x + width png100x)
                                 (height png200x + height png150x) (format png100x)
                in if isNull composed then Inl EmptyOutput else Inr composed)))"

text \<open>The height of the 150% variant the canvas is sized with.\<close>

definition height_150 :: "(int \<Rightarrow> int \<Rightarrow> int) \<Rightarrow> QImage \<Rightarrow> QImage \<Rightarrow> int" where
  "height_150 pxAdjust png100x png200x =
     height (scaled png200x (pxAdjust (width png100x) 6) (pxAdjust (height png100x) 6))"

text \<open>
  Modelled from the spec: \<^verbatim>\<open>structure::data::pxAdjust\<close> is defined outside
  \<^verbatim>\<open>generator.cpp\<close>. The scale factors 5 and 6 stand for 125% and 150% (quarters of
  the base); the adjusted value is the base times the factor, rounded (150% of 10 is
  \<open>round (10 * 1.5) = 15\<close>), and keeps the sign of the base.
\<close>

definition pxAdjust_rounded :: "int \<Rightarrow> int \<Rightarrow> int" where
  "pxAdjust_rounded v scale = sgn v * ((\<bar>v\<bar> * scale * 2 + 4) div 8)"

section \<open>Notions the properties are stated with\<close>

subsection \<open>Palette\<close>

text \<open>
  What holds of the generator state between two variables of a palette module: the
  next index is the number of lines written, line \<open>i\<close> computes cell \<open>i\<close> from a
  fallback index between \<open>-1\<close> and \<open>i\<close>, and the indices on record are those of the
  variables seen.
\<close>

definition gen_inv :: "palette_gen \<Rightarrow> bool" where
  "gen_inv g = (indexInPalette g = int (length (compute_lines g)) \<and>
     (\<forall>i < length (compute_lines g). fst (compute_lines g ! i) = int i \<and>
         - 1 \<le> fst (snd (compute_lines g ! i)) \<and> fst (snd (compute_lines g ! i)) \<le> int i) \<and>
     (\<forall>kv \<in> set (paletteIndices g). 0 \<le> snd kv \<and> snd kv < indexInPalette g))"

text \<open>The colour that \<^verbatim>\<open>load\<close> reads for cell \<open>i\<close>: bytes \<open>4i\<close> to \<open>4i + 3\<close> of the buffer.\<close>

definition cache_color :: "uchar list \<Rightarrow> nat \<Rightarrow> ColorData" where
  "cache_color cache i =
     ColorData (cache ! (4 * i)) (cache ! (4 * i + 1)) (cache ! (4 * i + 2)) (cache ! (4 * i + 3))"

text \<open>The four bytes \<^verbatim>\<open>save\<close> writes for a constructed cell.\<close>

fun color_bytes :: "ColorData \<Rightarrow> uchar list" where
  "color_bytes (ColorData r g b a) = [r, g, b, a]"

text \<open>
  The palette when \<^verbatim>\<open>finalize\<close> (on a palette that was not ready) reaches its line \<open>i\<close>:
  the flag is set and the lines before it have run.
\<close>

definition state_before :: "Variable list \<Rightarrow> palette \<Rightarrow> nat \<Rightarrow> palette" where
  "state_before vars p i = run_computes (take i (palette_computes vars)) (p\<lparr>ready_flag := True\<rparr>)"

text \<open>
  What the declaration of variable \<open>i\<close> gives its \<^verbatim>\<open>compute\<close> line: the index on record
  for its fallback name among the variables declared up to and including itself (\<open>-1\<close>
  when there is none), and its literal colour.
\<close>

definition fallback_index :: "Variable list \<Rightarrow> nat \<Rightarrow> int" where
  "fallback_index vars i =
     qmap_value (paletteIndices (snd (writeSetPaletteColor (take (Suc i) vars))))
       (colorFallbackName (var_value (vars ! i))) (- 1)"

definition literal_default :: "Variable \<Rightarrow> ColorData" where
  "literal_default v =
     (let c = Color_of (var_value v) in ColorData (red c) (green c) (blue c) (alpha c))"

text \<open>
  The rule for the value of cell \<open>i\<close> as the specification words it: the copy of the
  fallback cell when that cell is already \<open>Loaded\<close>, the literal default otherwise.
\<close>

definition claimed_cell_rule :: "Variable list \<Rightarrow> palette \<Rightarrow> nat \<Rightarrow> bool" where
  "claimed_cell_rule vars p i =
     (if fallback_index vars i \<ge> 0 \<and>
         status_cells (state_before vars p i) ! nat (fallback_index vars i) = Loaded
      then data_cells (palette_finalize vars p) ! i =
             data_cells (state_before vars p i) ! nat (fallback_index vars i)
      else data_cells (palette_finalize vars p) ! i = Some (literal_default (vars ! i)))"

text \<open>
  The states of a palette of the module \<open>vars\<close> that the public operations of the class
  lead to from a default-constructed palette. \<^verbatim>\<open>setColor\<close>, when it succeeds, is a
  \<^verbatim>\<open>setData\<close> on an index of the palette.
\<close>

inductive reachable :: "Variable list \<Rightarrow> palette \<Rightarrow> bool" for vars :: "Variable list" where
  constructed: "reachable vars (palette_default (palette_count vars))"
| finalized: "reachable vars p \<Longrightarrow> reachable vars (palette_finalize vars p)"
| saved: "reachable vars p \<Longrightarrow> reachable vars (snd (palette_save vars p))"
| loaded: "reachable vars p \<Longrightarrow> reachable vars (snd (palette_load vars cache p))"
| colour_set: "reachable vars p \<Longrightarrow> i < palette_count vars \<Longrightarrow> reachable vars (setData i v p)"
| assigned: "reachable vars p \<Longrightarrow> reachable vars other \<Longrightarrow>
     reachable vars (palette_assign vars other p)"

subsection \<open>Collector\<close>

text \<open>
  The keys of \<^verbatim>\<open>pxValues_\<close>, and the order a \<^verbatim>\<open>QMap\<close> keeps them in.
\<close>

definition px_keys :: "collected \<Rightarrow> int set" where
  "px_keys c = fst ` set (pxValues c)"

definition px_sorted :: "collected \<Rightarrow> bool" where
  "px_sorted c = sorted_wrt (<) (map fst (pxValues c))"

text \<open>The values of a C++ \<^verbatim>\<open>int\<close>.\<close>

definition int32 :: "int \<Rightarrow> bool" where
  "int32 v = (- (2 ^ 31) \<le> v \<and> v < 2 ^ 31)"

subsection \<open>Compositor\<close>

text \<open>
  A modifier that leaves the width, the height and the pixel format of both images as
  they are.
\<close>

definition keeps_size_format :: "modifier \<Rightarrow> bool" where
  "keeps_size_format m =
     (\<forall>a b. width (fst (m (a, b))) = width a \<and> height (fst (m (a, b))) = height a \<and>
            format (fst (m (a, b))) = format a \<and>
            width (snd (m (a, b))) = width b \<and> height (snd (m (a, b))) = height b \<and>
            format (snd (m (a, b))) = format b)"

section \<open>Sample modules and states\<close>

text \<open>Concrete inputs on which the theorems below are instantiated.\<close>

definition literal_color :: "uchar \<Rightarrow> uchar \<Rightarrow> uchar \<Rightarrow> uchar \<Rightarrow> string \<Rightarrow> Value" where
  "literal_color r g b a fb = Value [] (D_Color (data_color r g b a fb))"

definition example_palette :: "Variable list" where
  "example_palette =
     [Variable [''windowBg''] (literal_color 255 255 255 255 []),
      Variable [''windowFg''] (literal_color 0 0 0 255 []),
      Variable [''windowBgOver''] (literal_color 241 241 241 255 ''windowBg'')]"

definition example_fallback_palette :: "Variable list" where
  "example_fallback_palette =
     [Variable [''windowBg''] (literal_color 1 2 3 4 []),
      Variable [''windowBgOver''] (literal_color 5 6 7 8 ''windowBg'')]"

definition example_matcher_palette :: "Variable list" where
  "example_matcher_palette =
     [Variable [''axy''] (literal_color 1 2 3 4 []),
      Variable [''ba''] (literal_color 5 6 7 8 []),
      Variable [''bb''] (literal_color 9 10 11 12 [])]"

definition example_state :: palette where
  "example_state =
     \<lparr>data_cells = [Some (ColorData 9 9 9 9), None, None],
      status_cells = [Loaded, Initial, Initial], ready_flag = False\<rparr>"

definition example_mixed_state :: palette where
  "example_mixed_state =
     \<lparr>data_cells = [Some (ColorData 9 9 9 9), Some (ColorData 7 7 7 7), None],
      status_cells = [Loaded, Created, Initial], ready_flag = False\<rparr>"

definition example_ready_state :: palette where
  "example_ready_state =
     \<lparr>data_cells = [Some (ColorData 1 1 1 1), Some (ColorData 2 2 2 2), Some (ColorData 3 3 3 3)],
      status_cells = [Created, Loaded, Loaded], ready_flag = True\<rparr>"

definition example_source_state :: palette where
  "example_source_state =
     \<lparr>data_cells = [Some (ColorData 9 9 9 9), None, Some (ColorData 7 7 7 7)],
      status_cells = [Loaded, Initial, Created], ready_flag = False\<rparr>"

definition example_cache :: "uchar list" where
  "example_cache = [1, 2, 3, 4, 5, 6, 7, 8, 9, 10, 11, 12]"

definition example_load_image :: "string \<Rightarrow> QImage" where
  "example_load_image file =
     (if file = ''icons/send.png'' then Image 10 10 1
      else if file = ''icons/send@2x.png'' then Image 20 20 1
      else if file = ''icons/bad.png'' then Image 10 10 1
      else if file = ''icons/bad@2x.png'' then Image 19 20 1
      else NullImage)"

definition example_GetModifier :: "string \<Rightarrow> modifier option" where
  "example_GetModifier n = (if n = ''flip_horizontal'' then Some (\<lambda>imgs. imgs) else None)"

definition example_style_module :: "Variable list" where
  "example_style_module =
     [Variable [''buttonHeight''] (Value [] (D_Pixels 12)),
      Variable [''buttonShift''] (Value [] (D_Point (data_point 12 (- 12)))),
      Variable [''linkHeight''] (Value [''buttonHeight''] (D_Pixels 12)),
      Variable [''button'']
        (Value [] (D_Struct [''Button'']
           (Some [Variable [''Button'', ''font''] (Value [] (D_Font (data_font ''Open Sans'' 12 0))),
                  Variable [''Button'', ''padding'']
                    (Value [] (D_Margins (data_margins 12 0 12 0)))])))]"

section \<open>Properties of the generated palette\<close>

subsection \<open>What \<open>compute\<close> and \<open>finalize\<close> leave alone\<close>

lemma compute_length [simp]:
  "length (status_cells (compute j f v p)) = length (status_cells p)"
  "length (data_cells (compute j f v p)) = length (data_cells p)"
  by (cases v; simp)+

lemma compute_ready [simp]: "ready_flag (compute j f v p) = ready_flag p"
  by (cases v) simp

lemma compute_keeps:
  assumes "status_cells p ! i \<noteq> Initial"
  shows "status_cells (compute j f v p) ! i = status_cells p ! i"
    and "data_cells (compute j f v p) ! i = data_cells p ! i"
  using assms by (cases v; cases "nat j = i"; simp)+

lemma run_computes_length [simp]:
  "length (status_cells (run_computes cs p)) = length (status_cells p)"
  "length (data_cells (run_computes cs p)) = length (data_cells p)"
  by (induction cs p rule: run_computes.induct; simp)+

lemma run_computes_ready [simp]: "ready_flag (run_computes cs p) = ready_flag p"
  by (induction cs p rule: run_computes.induct) simp_all

lemma run_computes_keeps:
  assumes "status_cells p ! i \<noteq> Initial"
  shows "status_cells (run_computes cs p) ! i = status_cells p ! i \<and>
         data_cells (run_computes cs p) ! i = data_cells p ! i"
  using assms
proof (induction cs p rule: run_computes.induct)
  case (1 p)
  then show ?case by simp
next
  case (2 index fallbackIndex v cs p)
  then show ?case by (simp add: compute_keeps)
qed

lemma finalize_keeps:
  assumes "status_cells p ! i \<noteq> Initial"
  shows "status_cells (finalize cs p) ! i = status_cells p ! i \<and>
         data_cells (finalize cs p) ! i = data_cells p ! i"
  using run_computes_keeps [of "p\<lparr>ready_flag := True\<rparr>" i cs] assms
  by (simp add: finalize_def)

lemma finalize_ready [simp]: "ready_flag (finalize cs p)"
  by (simp add: finalize_def)

lemma finalize_length [simp]:
  "length (status_cells (finalize cs p)) = length (status_cells p)"
  "length (data_cells (finalize cs p)) = length (data_cells p)"
  by (simp_all add: finalize_def)

text \<open>
  Claim C5. For every palette state and every palette module, a second \<^verbatim>\<open>finalize()\<close>
  right after a first one changes nothing (no cell value, no status, not the ready
  flag), and \<^verbatim>\<open>finalize()\<close> leaves the status and the value of every \<open>Loaded\<close> cell as
  they were.
\<close>

theorem finalize_idempotent:
  "palette_finalize vars (palette_finalize vars p) = palette_finalize vars p \<and>
   (\<forall>i < length (status_cells p). status_cells p ! i = Loaded \<longrightarrow>
      status_cells (palette_finalize vars p) ! i = Loaded \<and>
      data_cells (palette_finalize vars p) ! i = data_cells p ! i)"
proof -
  have "finalize cs (finalize cs p) = finalize cs p" for cs
    using finalize_ready [of cs p] by (simp add: finalize_def del: finalize_ready)
  moreover have "status_cells p ! i = Loaded \<Longrightarrow>
      status_cells (finalize cs p) ! i = Loaded \<and>
      data_cells (finalize cs p) ! i = data_cells p ! i" for cs i
    using finalize_keeps [of p i cs] by simp
  ultimately show ?thesis by (simp add: palette_finalize_def)
qed

theorem finalize_idempotent_witness:
  "palette_finalize example_palette (palette_finalize example_palette example_state) =
     palette_finalize example_palette example_state \<and>
   status_cells example_state ! 0 = Loaded \<and>
   status_cells (palette_finalize example_palette example_state) ! 0 = Loaded \<and>
   data_cells (palette_finalize example_palette example_state) ! 0 = data_cells example_state ! 0"
proof -
  have a: "0 < length (status_cells example_state)" by code_simp
  have b: "status_cells example_state ! 0 = Loaded" by code_simp
  from finalize_idempotent [of example_palette example_state] a b show ?thesis by blast
qed


subsection \<open>The \<open>compute\<close> lines of a palette module\<close>

lemma set_qmap_insert: "set (qmap_insert k v m) \<subseteq> insert (k, v) (set m)"
  by (induction m) (auto split: if_splits)

lemma qmap_value_cases:
  "qmap_value m k d = d \<or> (k, qmap_value m k d) \<in> set m"
  by (auto simp: qmap_value_def split: option.splits dest: map_of_SomeD)

lemma fallback_bounds:
  assumes "\<forall>kv \<in> set m. 0 \<le> snd kv \<and> snd kv < (ix::int)" "0 \<le> ix"
  shows "- 1 \<le> qmap_value (qmap_insert nm ix m) k (- 1) \<and> qmap_value (qmap_insert nm ix m) k (- 1) \<le> ix"
proof -
  let ?f = "qmap_value (qmap_insert nm ix m) k (- 1)"
  from qmap_value_cases [of "qmap_insert nm ix m" k "- 1"]
  consider "?f = - 1" | "(k, ?f) \<in> set (qmap_insert nm ix m)" by blast
  then show ?thesis
  proof cases
    case 1
    with assms(2) show ?thesis by simp
  next
    case 2
    with set_qmap_insert [of nm ix m] have "(k, ?f) = (nm, ix) \<or> (k, ?f) \<in> set m" by blast
    with assms show ?thesis by force
  qed
qed

lemma visitor_inv:
  assumes "gen_inv g" "type_tag (var_value v) = Tag_Color"
  shows "fst (set_palette_visitor v g) \<and> gen_inv (snd (set_palette_visitor v g)) \<and>
    length (compute_lines (snd (set_palette_visitor v g))) = Suc (length (compute_lines g))"
proof -
  let ?n = "length (compute_lines g)"
  let ?nm = "name_back (var_name v)"
  let ?m = "qmap_insert ?nm (indexInPalette g) (paletteIndices g)"
  let ?f = "qmap_value ?m (colorFallbackName (var_value v)) (- 1)"
  let ?c = "Color_of (var_value v)"
  let ?g' = "snd (set_palette_visitor v g)"
  from assms(1) have ix: "indexInPalette g = int ?n"
    and old: "\<forall>i < ?n. fst (compute_lines g ! i) = int i \<and>
         - 1 \<le> fst (snd (compute_lines g ! i)) \<and> fst (snd (compute_lines g ! i)) \<le> int i"
    and pi: "\<forall>kv \<in> set (paletteIndices g). 0 \<le> snd kv \<and> snd kv < indexInPalette g"
    by (auto simp: gen_inv_def)
  have fb: "- 1 \<le> ?f \<and> ?f \<le> indexInPalette g"
    using fallback_bounds [OF pi] ix by simp
  have lines: "compute_lines ?g' = compute_lines g @
      [(indexInPalette g, ?f, TempColorData (red ?c) (green ?c) (blue ?c) (alpha ?c))]"
    and idx: "indexInPalette ?g' = indexInPalette g + 1"
    and pis: "paletteIndices ?g' = ?m"
    and ok: "fst (set_palette_visitor v g)"
    using assms(2) by (simp_all add: set_palette_visitor_def Let_def)
  have a: "indexInPalette ?g' = int (length (compute_lines ?g'))"
    using lines idx ix by simp
  have b: "\<forall>i < length (compute_lines ?g'). fst (compute_lines ?g' ! i) = int i \<and>
         - 1 \<le> fst (snd (compute_lines ?g' ! i)) \<and> fst (snd (compute_lines ?g' ! i)) \<le> int i"
  proof (intro allI impI)
    fix i assume "i < length (compute_lines ?g')"
    then have "i < ?n \<or> i = ?n" using lines by auto
    then show "fst (compute_lines ?g' ! i) = int i \<and>
         - 1 \<le> fst (snd (compute_lines ?g' ! i)) \<and> fst (snd (compute_lines ?g' ! i)) \<le> int i"
    proof
      assume "i < ?n"
      then show ?thesis using old lines by (simp add: nth_append)
    next
      assume "i = ?n"
      then show ?thesis using fb ix lines by (simp add: nth_append)
    qed
  qed
  have c: "\<forall>kv \<in> set (paletteIndices ?g'). 0 \<le> snd kv \<and> snd kv < indexInPalette ?g'"
  proof
    fix kv assume "kv \<in> set (paletteIndices ?g')"
    with pis set_qmap_insert [of ?nm "indexInPalette g" "paletteIndices g"]
    have "kv = (?nm, indexInPalette g) \<or> kv \<in> set (paletteIndices g)" by auto
    then show "0 \<le> snd kv \<and> snd kv < indexInPalette ?g'"
      using pi idx ix by force
  qed
  from a b c ok lines show ?thesis by (simp add: gen_inv_def)
qed

lemma enum_visitor_inv:
  assumes "gen_inv g" "list_all (\<lambda>v. type_tag (var_value v) = Tag_Color) vars"
  shows "fst (enumVariables set_palette_visitor vars g) \<and>
         gen_inv (snd (enumVariables set_palette_visitor vars g)) \<and>
         length (compute_lines (snd (enumVariables set_palette_visitor vars g))) =
           length (compute_lines g) + length vars"
  using assms
proof (induction vars arbitrary: g)
  case Nil
  then show ?case by simp
next
  case (Cons v vars)
  from Cons.prems have tv: "type_tag (var_value v) = Tag_Color"
    and rest: "list_all (\<lambda>v. type_tag (var_value v) = Tag_Color) vars" by simp_all
  obtain ok g' where vg: "set_palette_visitor v g = (ok, g')" by (cases "set_palette_visitor v g")
  from visitor_inv [OF Cons.prems(1) tv] vg
  have ok and g': "gen_inv g'" and len: "length (compute_lines g') = Suc (length (compute_lines g))"
    by simp_all
  from Cons.IH [OF g' rest] vg \<open>ok\<close> len show ?case by simp
qed

lemma palette_computes_shape:
  assumes "palette_module vars"
  shows "fst (writeSetPaletteColor vars)"
    and "palette_count vars = length vars"
    and "length (palette_computes vars) = length vars"
    and "i < length vars \<Longrightarrow> fst (palette_computes vars ! i) = int i \<and>
          - 1 \<le> fst (snd (palette_computes vars ! i)) \<and>
          fst (snd (palette_computes vars ! i)) \<le> int i"
proof -
  have start: "gen_inv palette_gen_start" by (simp add: gen_inv_def palette_gen_start_def)
  from enum_visitor_inv [OF start assms [unfolded palette_module_def]]
  have r: "fst (writeSetPaletteColor vars)" "gen_inv (snd (writeSetPaletteColor vars))"
    "length (compute_lines (snd (writeSetPaletteColor vars))) = length vars"
    by (simp_all add: writeSetPaletteColor_def palette_gen_start_def)
  show "fst (writeSetPaletteColor vars)" by (rule r(1))
  show "palette_count vars = length vars"
    using r(2,3) by (simp add: palette_count_def gen_inv_def)
  show "length (palette_computes vars) = length vars"
    using r(3) by (simp add: palette_computes_def)
  show "i < length vars \<Longrightarrow> fst (palette_computes vars ! i) = int i \<and>
          - 1 \<le> fst (snd (palette_computes vars ! i)) \<and>
          fst (snd (palette_computes vars ! i)) \<le> int i"
    using r(2,3) by (simp add: palette_computes_def gen_inv_def)
qed

subsection \<open>Loading a cache\<close>

lemma setData_simps [simp]:
  "status_cells (setData i v p) = (status_cells p)[i := Loaded]"
  "data_cells (setData i v p) = (data_cells p)[i := Some v]"
  "ready_flag (setData i v p) = ready_flag p"
  by (simp_all add: setData_def Let_def)

lemma load_cell_simps [simp]:
  "status_cells (load_cell cache i p) = (status_cells p)[i := Loaded]"
  "data_cells (load_cell cache i p) = (data_cells p)[i := Some (cache_color cache i)]"
  "ready_flag (load_cell cache i p) = ready_flag p"
  by (simp_all add: load_cell_def cache_color_def mult.commute)

lemma load_loop:
  assumes "n \<le> length (status_cells p)" "n \<le> length (data_cells p)"
  shows "length (status_cells (fold (load_cell cache) [0..<n] p)) = length (status_cells p) \<and>
   length (data_cells (fold (load_cell cache) [0..<n] p)) = length (data_cells p) \<and>
   ready_flag (fold (load_cell cache) [0..<n] p) = ready_flag p \<and>
   (\<forall>i. status_cells (fold (load_cell cache) [0..<n] p) ! i =
        (if i < n then Loaded else status_cells p ! i)) \<and>
   (\<forall>i. data_cells (fold (load_cell cache) [0..<n] p) ! i =
        (if i < n then Some (cache_color cache i) else data_cells p ! i))"
  using assms
proof (induction n)
  case 0
  then show ?case by simp
next
  case (Suc n)
  then show ?case by (simp add: nth_list_update less_Suc_eq)
qed

text \<open>
  Claim C4. \<^verbatim>\<open>load(cache)\<close> returns false and leaves the palette as it was (every
  value, every status, the ready flag) for every buffer whose length is not \<open>4 * N\<close>,
  \<open>N\<close> the number of colours of the module; with \<open>N = 3\<close> a buffer of 13 bytes fails.
\<close>

theorem load_rejects_wrong_length:
  "length cache \<noteq> 4 * palette_count vars \<Longrightarrow> palette_load vars cache p = (False, p)"
  by (simp add: palette_load_def load_def mult.commute)

theorem load_rejects_wrong_length_witness:
  "palette_count example_palette = 3 \<and>
   length (replicate 13 (0 :: uchar)) \<noteq> 4 * palette_count example_palette \<and>
   palette_load example_palette (replicate 13 0) example_state = (False, example_state)"
proof -
  have n: "palette_count example_palette = 3" by code_simp
  then have a: "length (replicate 13 (0 :: uchar)) \<noteq> 4 * palette_count example_palette" by simp
  from load_rejects_wrong_length [OF a] n a show ?thesis by blast
qed

lemma load_full:
  assumes "length cache = 4 * palette_count vars"
    and "length (status_cells p) = palette_count vars"
    and "length (data_cells p) = palette_count vars"
  shows "fst (palette_load vars cache p) \<and>
         status_cells (snd (palette_load vars cache p)) = replicate (palette_count vars) Loaded \<and>
         data_cells (snd (palette_load vars cache p)) =
           map (\<lambda>i. Some (cache_color cache i)) [0..<palette_count vars]"
proof -
  let ?n = "palette_count vars"
  let ?q = "fold (load_cell cache) [0..<?n] p"
  have l: "palette_load vars cache p = (True, ?q)"
    using assms(1) by (simp add: palette_load_def load_def mult.commute)
  have "status_cells ?q = replicate ?n Loaded"
    using load_loop [of ?n p cache] assms(2,3) by (intro nth_equalityI) simp_all
  moreover have "data_cells ?q = map (\<lambda>i. Some (cache_color cache i)) [0..<?n]"
    using load_loop [of ?n p cache] assms(2,3) by (intro nth_equalityI) simp_all
  ultimately show ?thesis using l by simp
qed

text \<open>
  Claim C10. After a \<^verbatim>\<open>load(cache)\<close> that returns true every one of the \<open>N\<close> cells is
  \<open>Loaded\<close> and holds a constructed colour (the one read from the buffer), whatever the
  status of the cell was before and whether or not the palette was ready: \<^verbatim>\<open>setData\<close>
  marks the cell it writes \<open>Loaded\<close> without a condition.
\<close>

theorem load_marks_all_loaded:
  assumes "length cache = 4 * palette_count vars"
    and "length (status_cells p) = palette_count vars"
    and "length (data_cells p) = palette_count vars"
  shows "fst (palette_load vars cache p) \<and>
         status_cells (snd (palette_load vars cache p)) = replicate (palette_count vars) Loaded \<and>
         data_cells (snd (palette_load vars cache p)) =
           map (\<lambda>i. Some (cache_color cache i)) [0..<palette_count vars]"
  using assms by (rule load_full)

theorem load_marks_all_loaded_witness:
  "length example_cache = 4 * palette_count example_palette \<and>
   status_cells example_mixed_state = [Loaded, Created, Initial] \<and>
   fst (palette_load example_palette example_cache example_mixed_state) \<and>
   status_cells (snd (palette_load example_palette example_cache example_mixed_state)) =
     replicate (palette_count example_palette) Loaded \<and>
   data_cells (snd (palette_load example_palette example_cache example_mixed_state)) =
     map (\<lambda>i. Some (cache_color example_cache i)) [0..<palette_count example_palette]"
proof -
  have a: "length example_cache = 4 * palette_count example_palette" by code_simp
  have b: "length (status_cells example_mixed_state) = palette_count example_palette" by code_simp
  have c: "length (data_cells example_mixed_state) = palette_count example_palette" by code_simp
  have d: "status_cells example_mixed_state = [Loaded, Created, Initial]" by code_simp
  from load_marks_all_loaded [OF a b c] a d show ?thesis by blast
qed

subsection \<open>Constructed cells and complete palettes\<close>

lemma cells_constructed_iff:
  "cells_constructed n p \<longleftrightarrow>
     length (status_cells p) = n \<and> length (data_cells p) = n \<and>
     (\<forall>i < n. status_cells p ! i \<noteq> Initial \<longrightarrow> data_cells p ! i \<noteq> None)"
  by (auto simp: cells_constructed_def list_all_iff)

lemma compute_constructed:
  assumes "cells_constructed n p" "0 \<le> f \<longrightarrow> nat f < n"
  shows "cells_constructed n (compute j f v p)"
proof -
  obtain r g b a where v: "v = TempColorData r g b a" by (cases v)
  from assms(1) have len: "length (status_cells p) = n" "length (data_cells p) = n"
    and con: "\<And>i. i < n \<Longrightarrow> status_cells p ! i \<noteq> Initial \<Longrightarrow> data_cells p ! i \<noteq> None"
    by (simp_all add: cells_constructed_iff)
  have "data_cells (compute j f v p) ! i \<noteq> None"
    if i: "i < n" and st: "status_cells (compute j f v p) ! i \<noteq> Initial" for i
  proof (cases "status_cells p ! nat j = Initial")
    case False
    then have "compute j f v p = p" by (simp add: v)
    with con [OF i] st show ?thesis by simp
  next
    case True
    show ?thesis
    proof (cases "i = nat j")
      case False
      with True st have "status_cells p ! i \<noteq> Initial" by (simp add: v split: if_splits)
      with con [OF i] False True show ?thesis by (simp add: v)
    next
      case ij: True
      show ?thesis
      proof (cases "0 \<le> f \<and> status_cells p ! nat f \<noteq> Initial")
        case True
        with assms(2) con [of "nat f"] have "data_cells p ! nat f \<noteq> None" by simp
        with True \<open>status_cells p ! nat j = Initial\<close> ij i len show ?thesis by (simp add: v)
      next
        case False
        with \<open>status_cells p ! nat j = Initial\<close> ij i len show ?thesis by (auto simp: v)
      qed
    qed
  qed
  with len show ?thesis by (simp add: cells_constructed_iff)
qed

lemma run_computes_constructed:
  assumes "cells_constructed n p" "\<forall>c \<in> set cs. 0 \<le> fst (snd c) \<longrightarrow> nat (fst (snd c)) < n"
  shows "cells_constructed n (run_computes cs p)"
  using assms
proof (induction cs p rule: run_computes.induct)
  case (1 p)
  then show ?case by simp
next
  case (2 index fallbackIndex v cs p)
  then show ?case by (simp add: compute_constructed)
qed

lemma compute_sets:
  assumes "0 \<le> j" "nat j < length (status_cells p)"
  shows "status_cells (compute j f v p) ! nat j \<noteq> Initial"
  using assms by (cases v) simp

lemma run_computes_sets:
  assumes "c \<in> set cs" "0 \<le> fst c" "nat (fst c) < length (status_cells p)"
  shows "status_cells (run_computes cs p) ! nat (fst c) \<noteq> Initial"
  using assms
proof (induction cs p rule: run_computes.induct)
  case (1 p)
  then show ?case by simp
next
  case (2 index fallbackIndex v cs p)
  show ?case
  proof (cases "c = (index, fallbackIndex, v)")
    case True
    with 2 have "status_cells (compute index fallbackIndex v p) ! nat (fst c) \<noteq> Initial"
      by (simp add: compute_sets)
    from run_computes_keeps [OF this, of cs] this True show ?thesis by simp
  next
    case False
    with 2 show ?thesis by simp
  qed
qed


lemma palette_computes_fallback_range:
  assumes "palette_module vars" "c \<in> set (palette_computes vars)"
  shows "0 \<le> fst (snd c) \<longrightarrow> nat (fst (snd c)) < length vars"
proof -
  from assms(2) obtain i where i: "i < length (palette_computes vars)" "palette_computes vars ! i = c"
    by (auto simp: in_set_conv_nth)
  with palette_computes_shape(3) [OF assms(1)] have "i < length vars" by simp
  from palette_computes_shape(4) [OF assms(1) this] i(2) this show ?thesis by auto
qed

lemma finalize_module:
  assumes "palette_module vars" "cells_constructed (length vars) p"
  shows "cells_constructed (length vars) (palette_finalize vars p)"
    and "\<not> ready_flag p \<Longrightarrow> Initial \<notin> set (status_cells (palette_finalize vars p))"
proof -
  let ?cs = "palette_computes vars"
  let ?p = "p\<lparr>ready_flag := True\<rparr>"
  have cc: "cells_constructed (length vars) ?p"
    using assms(2) by (simp add: cells_constructed_iff)
  have rc: "cells_constructed (length vars) (run_computes ?cs ?p)"
    using run_computes_constructed [OF cc] palette_computes_fallback_range [OF assms(1)] by blast
  show "cells_constructed (length vars) (palette_finalize vars p)"
    using rc assms(2) by (simp add: palette_finalize_def finalize_def)
  assume nr: "\<not> ready_flag p"
  have len: "length (status_cells p) = length vars"
    using assms(2) by (simp add: cells_constructed_iff)
  have "status_cells (run_computes ?cs ?p) ! i \<noteq> Initial" if "i < length vars" for i
  proof -
    from palette_computes_shape(3,4) [OF assms(1)] that
    have m: "?cs ! i \<in> set ?cs" and f: "fst (?cs ! i) = int i" by simp_all
    from run_computes_sets [OF m, of ?p] f that len show ?thesis by simp
  qed
  then have "Initial \<notin> set (status_cells (run_computes ?cs ?p))"
    using len by (auto simp: in_set_conv_nth)
  with nr show "Initial \<notin> set (status_cells (palette_finalize vars p))"
    by (simp add: palette_finalize_def finalize_def)
qed

subsection \<open>Saving\<close>

lemma cache_color_flat:
  "i < length cs \<Longrightarrow> cache_color (concat (map color_bytes cs)) i = cs ! i"
proof (induction cs arbitrary: i)
  case Nil
  then show ?case by simp
next
  case (Cons c cs)
  obtain r g b a where c: "c = ColorData r g b a" by (cases c)
  show ?case
  proof (cases i)
    case 0
    then show ?thesis by (simp add: c cache_color_def)
  next
    case (Suc k)
    with Cons.prems have k: "k < length cs" by simp
    have "cache_color (concat (map color_bytes (c # cs))) (Suc k) =
          cache_color (concat (map color_bytes cs)) k"
      by (simp add: c cache_color_def nth_append eval_nat_numeral)
    with Cons.IH [OF k] Suc show ?thesis by simp
  qed
qed

lemma length_color_bytes [simp]: "length (color_bytes c) = 4"
  by (cases c) simp

lemma length_flat: "length (concat (map color_bytes cs)) = 4 * length cs"
  by (induction cs) simp_all

lemma those_map_Some: "those (map (\<lambda>x. Some (f x)) xs) = Some (map f xs)"
  by (induction xs) simp_all

lemma cell_bytes_Some: "cell_bytes (Some c) = Some (color_bytes c)"
  by (cases c) simp


lemma save_bytes_constructed:
  assumes "length (data_cells q) = n" "\<forall>i<n. data_cells q ! i \<noteq> None"
  shows "\<exists>cs. length cs = n \<and> data_cells q = map Some cs \<and>
     map_option concat (those (map (\<lambda>i. cell_bytes (data_cells q ! i)) [0..<n])) =
       Some (concat (map color_bytes cs))"
proof -
  define cs where "cs = map (\<lambda>i. the (data_cells q ! i)) [0..<n]"
  have len: "length cs = n" by (simp add: cs_def)
  have dc: "data_cells q = map Some cs"
    using assms by (intro nth_equalityI) (auto simp: cs_def)
  have "map (\<lambda>i. cell_bytes (data_cells q ! i)) [0..<n] =
        map (\<lambda>i. Some (color_bytes (cs ! i))) [0..<n]"
    using len by (simp add: dc cell_bytes_Some)
  also have "those \<dots> = Some (map (\<lambda>i. color_bytes (cs ! i)) [0..<n])"
    by (rule those_map_Some)
  also have "map (\<lambda>i. color_bytes (cs ! i)) [0..<n] = map color_bytes cs"
    using len by (intro nth_equalityI) simp_all
  finally show ?thesis using len dc by auto
qed

lemma save_total:
  assumes pm: "palette_module vars"
    and cc: "cells_constructed (palette_count vars) p"
    and rc: "ready_complete p"
  shows "\<exists>cs. length cs = palette_count vars \<and>
           data_cells (snd (palette_save vars p)) = map Some cs \<and>
           fst (palette_save vars p) = Some (concat (map color_bytes cs)) \<and>
           snd (palette_save vars p) = palette_finalize vars p"
proof -
  let ?n = "palette_count vars"
  let ?q = "palette_finalize vars p"
  have n: "?n = length vars" by (rule palette_computes_shape(2) [OF pm])
  have ps: "palette_save vars p =
      (map_option concat (those (map (\<lambda>i. cell_bytes (data_cells ?q ! i)) [0..<?n])), ?q)"
    by (cases "ready_flag p")
       (simp_all add: palette_save_def save_def Let_def palette_finalize_def finalize_def)
  then have q: "snd (palette_save vars p) = ?q" by simp
  have ccq: "cells_constructed ?n ?q"
    using finalize_module(1) [OF pm] cc n by simp
  have "Initial \<notin> set (status_cells ?q)"
  proof (cases "ready_flag p")
    case True
    with rc show ?thesis by (simp add: ready_complete_def palette_finalize_def finalize_def)
  next
    case False
    from finalize_module(2) [OF pm _ False] cc n show ?thesis by simp
  qed
  with ccq have "\<forall>i<?n. data_cells ?q ! i \<noteq> None"
    by (auto simp: cells_constructed_iff in_set_conv_nth)
  moreover from ccq have "length (data_cells ?q) = ?n" by (simp add: cells_constructed_iff)
  ultimately obtain cs where cs: "length cs = ?n" "data_cells ?q = map Some cs"
     "map_option concat (those (map (\<lambda>i. cell_bytes (data_cells ?q ! i)) [0..<?n])) =
       Some (concat (map color_bytes cs))"
    using save_bytes_constructed [of ?q ?n] by blast
  have "fst (palette_save vars p) = Some (concat (map color_bytes cs))"
    using cs(3) ps by simp
  with cs q show ?thesis by auto
qed


lemma palette_default_simps [simp]:
  "length (status_cells (palette_default n)) = n"
  "length (data_cells (palette_default n)) = n"
  "\<not> ready_flag (palette_default n)"
  by (simp_all add: palette_default_def)

text \<open>
  Claim C3. For a palette of a module with \<open>N\<close> colours (in a state the class can be
  in), \<^verbatim>\<open>save()\<close> returns a buffer \<open>b\<close> of exactly \<open>4 * N\<close> bytes, in which bytes \<open>4i\<close> to
  \<open>4i + 3\<close> are red, green, blue, alpha of cell \<open>i\<close>; and \<^verbatim>\<open>load(b)\<close> on a
  default-constructed palette succeeds and a \<^verbatim>\<open>save()\<close> after it returns \<open>b\<close> again.
\<close>

theorem save_load_roundtrip:
  assumes pm: "palette_module vars"
    and cc: "cells_constructed (palette_count vars) p"
    and rc: "ready_complete p"
  shows "\<exists>b. fst (palette_save vars p) = Some b \<and> length b = 4 * palette_count vars \<and>
          (\<forall>i < palette_count vars.
             data_cells (snd (palette_save vars p)) ! i = Some (cache_color b i)) \<and>
          fst (palette_load vars b (palette_default (palette_count vars))) \<and>
          fst (palette_save vars (snd (palette_load vars b (palette_default (palette_count vars)))))
            = Some b"
proof -
  let ?n = "palette_count vars"
  from save_total [OF pm cc rc] obtain cs where cs: "length cs = ?n"
    "data_cells (snd (palette_save vars p)) = map Some cs"
    "fst (palette_save vars p) = Some (concat (map color_bytes cs))" by blast
  let ?b = "concat (map color_bytes cs)"
  let ?q = "snd (palette_load vars ?b (palette_default ?n))"
  have lb: "length ?b = 4 * ?n" using cs(1) by (simp add: length_flat)
  have cells: "\<forall>i < ?n. data_cells (snd (palette_save vars p)) ! i = Some (cache_color ?b i)"
    using cs(1,2) by (simp add: cache_color_flat)
  from load_full [OF lb, of "palette_default ?n"]
  have ld: "fst (palette_load vars ?b (palette_default ?n))"
    and st: "status_cells ?q = replicate ?n Loaded"
    and dq: "data_cells ?q = map (\<lambda>i. Some (cache_color ?b i)) [0..<?n]"
    by simp_all
  have dq': "data_cells ?q = map Some cs"
    using cs(1) by (intro nth_equalityI) (simp_all add: dq cache_color_flat)
  have ccq: "cells_constructed ?n ?q"
    using st dq' cs(1) by (simp add: cells_constructed_iff)
  have rcq: "ready_complete ?q"
    using st by (simp add: ready_complete_def)
  from save_total [OF pm ccq rcq] obtain cs' where cs': "length cs' = ?n"
    "data_cells (snd (palette_save vars ?q)) = map Some cs'"
    "fst (palette_save vars ?q) = Some (concat (map color_bytes cs'))"
    "snd (palette_save vars ?q) = palette_finalize vars ?q" by blast
  have "data_cells (palette_finalize vars ?q) ! i = data_cells ?q ! i" if "i < ?n" for i
    using finalize_keeps [of ?q i "palette_computes vars"] st that
    by (simp add: palette_finalize_def)
  then have "map Some cs' = map Some cs"
    using cs'(1,2,4) cs(1) dq' by (intro nth_equalityI) simp_all
  then have "cs' = cs" by (simp add: inj_map_eq_map)
  with cs'(3) have "fst (palette_save vars ?q) = Some ?b" by simp
  with cs(3) lb cells ld show ?thesis by blast
qed

theorem save_load_roundtrip_witness:
  "palette_module example_palette \<and>
   cells_constructed (palette_count example_palette) example_mixed_state \<and>
   ready_complete example_mixed_state \<and>
   fst (palette_save example_palette example_mixed_state) =
     Some [9, 9, 9, 9, 7, 7, 7, 7, 9, 9, 9, 9] \<and>
   fst (palette_load example_palette [9, 9, 9, 9, 7, 7, 7, 7, 9, 9, 9, 9]
          (palette_default (palette_count example_palette))) \<and>
   fst (palette_save example_palette
          (snd (palette_load example_palette [9, 9, 9, 9, 7, 7, 7, 7, 9, 9, 9, 9]
                  (palette_default (palette_count example_palette))))) =
     Some [9, 9, 9, 9, 7, 7, 7, 7, 9, 9, 9, 9]"
proof -
  have a: "palette_module example_palette" by code_simp
  have b: "cells_constructed (palette_count example_palette) example_mixed_state" by code_simp
  have c: "ready_complete example_mixed_state" by code_simp
  have d: "fst (palette_save example_palette example_mixed_state) =
     Some [9, 9, 9, 9, 7, 7, 7, 7, 9, 9, 9, 9]" by code_simp
  from save_load_roundtrip [OF a b c] d a b c show ?thesis by auto
qed

subsection \<open>Assigning a palette\<close>

lemma update_same: "xs ! i = v \<Longrightarrow> xs[i := v] = xs"
  by (metis list_update_id)

lemma assign_cell_simps:
  "status_cells (assign_cell other i p) =
     (if status_cells other ! i = Loaded then status_cells p else (status_cells p)[i := Initial])"
  "data_cells (assign_cell other i p) =
     (if status_cells other ! i = Loaded then (data_cells p)[i := data_cells other ! i]
      else if status_cells p ! i \<noteq> Initial then (data_cells p)[i := None] else data_cells p)"
  "ready_flag (assign_cell other i p) =
     (ready_flag p \<and> (status_cells other ! i = Loaded \<or> status_cells p ! i = Initial))"
  by (auto simp: assign_cell_def update_same)

lemma assign_loop_cells:
  assumes "n \<le> length (status_cells p)" "n \<le> length (data_cells p)"
  shows "length (status_cells (assign_loop n other p)) = length (status_cells p) \<and>
   length (data_cells (assign_loop n other p)) = length (data_cells p) \<and>
   (\<forall>i. status_cells (assign_loop n other p) ! i =
        (if i < n \<and> status_cells other ! i \<noteq> Loaded then Initial else status_cells p ! i)) \<and>
   (\<forall>i. data_cells (assign_loop n other p) ! i =
        (if i < n \<and> status_cells other ! i = Loaded then data_cells other ! i
         else if i < n \<and> status_cells p ! i \<noteq> Initial then None
         else data_cells p ! i)) \<and>
   (ready_flag (assign_loop n other p) \<longleftrightarrow>
      ready_flag p \<and> (\<forall>i < n. status_cells other ! i = Loaded \<or> status_cells p ! i = Initial))"
  using assms
proof (induction n)
  case 0
  then show ?case by (simp add: assign_loop_def)
next
  case (Suc n)
  let ?q = "assign_loop n other p"
  from Suc have IH: "length (status_cells ?q) = length (status_cells p)"
    "length (data_cells ?q) = length (data_cells p)"
    "\<And>i. status_cells ?q ! i =
        (if i < n \<and> status_cells other ! i \<noteq> Loaded then Initial else status_cells p ! i)"
    "\<And>i. data_cells ?q ! i =
        (if i < n \<and> status_cells other ! i = Loaded then data_cells other ! i
         else if i < n \<and> status_cells p ! i \<noteq> Initial then None
         else data_cells p ! i)"
    "ready_flag ?q \<longleftrightarrow>
      ready_flag p \<and> (\<forall>i < n. status_cells other ! i = Loaded \<or> status_cells p ! i = Initial)"
    by simp_all
  have step: "assign_loop (Suc n) other p = assign_cell other n ?q"
    by (simp add: assign_loop_def)
  from Suc.prems IH(1,2) have nl: "n < length (status_cells ?q)" "n < length (data_cells ?q)"
    by simp_all
  show ?case
    unfolding step assign_cell_simps
    using IH nl by (auto simp: nth_list_update less_Suc_eq)
qed


text \<open>
  Claim C2. \<^verbatim>\<open>palette::operator=\<close>, for every cell \<open>i\<close>: when the source cell is
  \<open>Loaded\<close> its value is in the destination cell after the loop and after the whole
  assignment; when the source cell is \<open>Initial\<close> the destination status is \<open>Initial\<close>
  after the loop and the value of a destination cell that had one (status not
  \<open>Initial\<close>) is destroyed; and the assignment ends with \<^verbatim>\<open>finalize\<close> exactly when the
  destination was ready before and the loop left a cell \<open>Initial\<close>. The destination is
  in a state the class can be in: a ready palette has no \<open>Initial\<close> cell.
\<close>

theorem operator_assign_cells:
  assumes ls: "length (status_cells p) = palette_count vars"
    and ld: "length (data_cells p) = palette_count vars"
    and rc: "ready_complete p"
    and i: "i < palette_count vars"
  shows "(status_cells other ! i = Loaded \<longrightarrow>
            data_cells (assign_loop (palette_count vars) other p) ! i = data_cells other ! i \<and>
            data_cells (palette_assign vars other p) ! i = data_cells other ! i) \<and>
         (status_cells other ! i = Initial \<longrightarrow>
            status_cells (assign_loop (palette_count vars) other p) ! i = Initial \<and>
            (status_cells p ! i \<noteq> Initial \<longrightarrow>
               data_cells (assign_loop (palette_count vars) other p) ! i = None)) \<and>
         palette_assign vars other p =
           (if ready_flag p \<and> Initial \<in> set (status_cells (assign_loop (palette_count vars) other p))
            then palette_finalize vars (assign_loop (palette_count vars) other p)
            else assign_loop (palette_count vars) other p)"
proof -
  let ?n = "palette_count vars"
  let ?q = "assign_loop ?n other p"
  from assign_loop_cells [of ?n p other] ls ld
  have len: "length (status_cells ?q) = ?n"
    and st: "\<And>j. status_cells ?q ! j =
        (if j < ?n \<and> status_cells other ! j \<noteq> Loaded then Initial else status_cells p ! j)"
    and dt: "\<And>j. data_cells ?q ! j =
        (if j < ?n \<and> status_cells other ! j = Loaded then data_cells other ! j
         else if j < ?n \<and> status_cells p ! j \<noteq> Initial then None
         else data_cells p ! j)"
    and rd: "ready_flag ?q \<longleftrightarrow>
      ready_flag p \<and> (\<forall>j < ?n. status_cells other ! j = Loaded \<or> status_cells p ! j = Initial)"
    by simp_all
  have full: "status_cells p ! j \<noteq> Initial" if "ready_flag p" "j < ?n" for j
    using rc that ls by (auto simp: ready_complete_def in_set_conv_nth)
  have rerun: "ready_flag p \<and> \<not> ready_flag ?q \<longleftrightarrow>
               ready_flag p \<and> Initial \<in> set (status_cells ?q)"
  proof (cases "ready_flag p")
    case False
    then show ?thesis by simp
  next
    case True
    have "Initial \<in> set (status_cells ?q) \<longleftrightarrow> (\<exists>j < ?n. status_cells other ! j \<noteq> Loaded)"
      using full [OF True] len by (auto simp: in_set_conv_nth st)
    moreover have "\<not> ready_flag ?q \<longleftrightarrow> (\<exists>j < ?n. status_cells other ! j \<noteq> Loaded)"
      using full [OF True] True by (auto simp: rd)
    ultimately show ?thesis by simp
  qed
  have fin: "palette_assign vars other p =
           (if ready_flag p \<and> Initial \<in> set (status_cells ?q)
            then palette_finalize vars ?q else ?q)"
    using rerun by (simp add: palette_assign_def operator_assign_def Let_def palette_finalize_def)
  have loaded: "data_cells ?q ! i = data_cells other ! i \<and>
                data_cells (palette_assign vars other p) ! i = data_cells other ! i"
    if src: "status_cells other ! i = Loaded"
  proof -
    have a: "data_cells ?q ! i = data_cells other ! i" using src i by (simp add: dt)
    show ?thesis
    proof (cases "ready_flag p \<and> Initial \<in> set (status_cells ?q)")
      case False
      with fin a show ?thesis by simp
    next
      case True
      then have "status_cells ?q ! i \<noteq> Initial" using full [of i] i src by (simp add: st)
      from finalize_keeps [OF this, of "palette_computes vars"] fin True a
      show ?thesis by (simp add: palette_finalize_def)
    qed
  qed
  have cleared: "status_cells ?q ! i = Initial \<and>
                 (status_cells p ! i \<noteq> Initial \<longrightarrow> data_cells ?q ! i = None)"
    if src: "status_cells other ! i = Initial"
    using src i by (simp add: st dt)
  from loaded cleared fin show ?thesis by blast
qed

theorem operator_assign_cells_witness:
  "status_cells example_source_state = [Loaded, Initial, Created] \<and>
   ready_flag example_ready_state \<and>
   data_cells (palette_assign example_palette example_source_state example_ready_state) ! 0 =
     data_cells example_source_state ! 0 \<and>
   status_cells (assign_loop (palette_count example_palette) example_source_state example_ready_state) ! 1 =
     Initial \<and>
   data_cells (assign_loop (palette_count example_palette) example_source_state example_ready_state) ! 1 =
     None \<and>
   Initial \<in> set (status_cells
     (assign_loop (palette_count example_palette) example_source_state example_ready_state)) \<and>
   palette_assign example_palette example_source_state example_ready_state =
     palette_finalize example_palette
       (assign_loop (palette_count example_palette) example_source_state example_ready_state)"
proof -
  have a: "length (status_cells example_ready_state) = palette_count example_palette" by code_simp
  have b: "length (data_cells example_ready_state) = palette_count example_palette" by code_simp
  have c: "ready_complete example_ready_state" by code_simp
  have i0: "0 < palette_count example_palette" and i1: "1 < palette_count example_palette"
    by code_simp+
  have s: "status_cells example_source_state = [Loaded, Initial, Created]" by code_simp
  have r: "ready_flag example_ready_state" by code_simp
  have d: "status_cells example_ready_state ! 1 \<noteq> Initial" by code_simp
  have e: "Initial \<in> set (status_cells
     (assign_loop (palette_count example_palette) example_source_state example_ready_state))"
    by code_simp
  from operator_assign_cells [OF a b c i0, of example_source_state]
       operator_assign_cells [OF a b c i1, of example_source_state] s r d e
  show ?thesis by simp
qed

subsection \<open>What \<open>finalize\<close> computes for a cell\<close>

lemma run_computes_append:
  "run_computes (xs @ ys) p = run_computes ys (run_computes xs p)"
  by (induction xs p rule: run_computes.induct) simp_all

lemma compute_other:
  assumes "nat j \<noteq> i"
  shows "status_cells (compute j f v p) ! i = status_cells p ! i \<and>
         data_cells (compute j f v p) ! i = data_cells p ! i"
  using assms by (cases v) simp

lemma run_computes_other:
  assumes "\<forall>c \<in> set cs. nat (fst c) \<noteq> i"
  shows "status_cells (run_computes cs p) ! i = status_cells p ! i \<and>
         data_cells (run_computes cs p) ! i = data_cells p ! i"
  using assms
proof (induction cs p rule: run_computes.induct)
  case (1 p)
  then show ?case by simp
next
  case (2 index fallbackIndex v cs p)
  then show ?case by (simp add: compute_other)
qed

lemma enumVariables_append:
  "enumVariables f (xs @ ys) s =
     (case enumVariables f xs s of (True, s') \<Rightarrow> enumVariables f ys s' | (False, s') \<Rightarrow> (False, s'))"
  by (induction xs arbitrary: s) (auto split: prod.splits bool.splits)

lemma visitor_lines:
  assumes "type_tag (var_value v) = Tag_Color"
  shows "set_palette_visitor v g = (True, snd (set_palette_visitor v g))"
    and "compute_lines (snd (set_palette_visitor v g)) = compute_lines g @
      [(indexInPalette g,
        qmap_value (paletteIndices (snd (set_palette_visitor v g)))
          (colorFallbackName (var_value v)) (- 1),
        TempColorData (red (Color_of (var_value v))) (green (Color_of (var_value v)))
          (blue (Color_of (var_value v))) (alpha (Color_of (var_value v))))]"
  using assms by (simp_all add: set_palette_visitor_def Let_def)

lemma enum_lines_extend:
  assumes "list_all (\<lambda>v. type_tag (var_value v) = Tag_Color) vars"
  shows "\<exists>more. compute_lines (snd (enumVariables set_palette_visitor vars g)) =
           compute_lines g @ more"
  using assms
proof (induction vars arbitrary: g)
  case Nil
  then show ?case by simp
next
  case (Cons v vars)
  then have tv: "type_tag (var_value v) = Tag_Color"
    and rest: "list_all (\<lambda>v. type_tag (var_value v) = Tag_Color) vars" by simp_all
  from Cons.IH [OF rest, of "snd (set_palette_visitor v g)"]
  obtain more where "compute_lines (snd (enumVariables set_palette_visitor vars
      (snd (set_palette_visitor v g)))) = compute_lines (snd (set_palette_visitor v g)) @ more"
    by blast
  then show ?case
    using visitor_lines [OF tv, of g] by (cases "set_palette_visitor v g") auto
qed

lemma palette_computes_line:
  assumes pm: "palette_module vars" and i: "i < length vars"
  shows "palette_computes vars ! i =
     (int i, fallback_index vars i,
      TempColorData (red (Color_of (var_value (vars ! i)))) (green (Color_of (var_value (vars ! i))))
        (blue (Color_of (var_value (vars ! i)))) (alpha (Color_of (var_value (vars ! i)))))"
proof -
  let ?f = set_palette_visitor
  let ?xs = "take i vars" and ?v = "vars ! i" and ?ys = "drop (Suc i) vars"
  from pm have all: "list_all (\<lambda>v. type_tag (var_value v) = Tag_Color) vars"
    by (simp add: palette_module_def)
  have cx: "list_all (\<lambda>v. type_tag (var_value v) = Tag_Color) ?xs"
    and cv: "type_tag (var_value ?v) = Tag_Color"
    and cy: "list_all (\<lambda>v. type_tag (var_value v) = Tag_Color) ?ys"
    using all i by (auto simp: list_all_iff dest: in_set_takeD in_set_dropD)
  have start: "gen_inv palette_gen_start" by (simp add: gen_inv_def palette_gen_start_def)
  obtain ok g where ex0: "enumVariables ?f ?xs palette_gen_start = (ok, g)"
    by (cases "enumVariables ?f ?xs palette_gen_start")
  from enum_visitor_inv [OF start cx] ex0 i
  have ok and gi: "gen_inv g" and lx: "length (compute_lines g) = i"
    by (simp_all add: palette_gen_start_def)
  from ex0 \<open>ok\<close> have ex: "enumVariables ?f ?xs palette_gen_start = (True, g)" by simp
  obtain g1 where vv: "?f ?v g = (True, g1)" and g1: "g1 = snd (?f ?v g)"
    using visitor_lines(1) [OF cv, of g] by simp
  have lines: "compute_lines g1 = compute_lines g @
      [(indexInPalette g, qmap_value (paletteIndices g1) (colorFallbackName (var_value ?v)) (- 1),
        TempColorData (red (Color_of (var_value ?v))) (green (Color_of (var_value ?v)))
          (blue (Color_of (var_value ?v))) (alpha (Color_of (var_value ?v))))]"
    unfolding g1 by (rule visitor_lines(2) [OF cv])
  have t: "take (Suc i) vars = ?xs @ [?v]" using i by (simp add: take_Suc_conv_app_nth)
  have pre: "enumVariables ?f (take (Suc i) vars) palette_gen_start = (True, g1)"
    by (simp add: t enumVariables_append ex vv)
  have "enumVariables ?f vars palette_gen_start =
      enumVariables ?f (take (Suc i) vars @ ?ys) palette_gen_start"
    by (simp only: append_take_drop_id)
  also have "\<dots> = enumVariables ?f ?ys g1"
    unfolding enumVariables_append pre by simp
  finally have full: "enumVariables ?f vars palette_gen_start = enumVariables ?f ?ys g1" .
  from enum_lines_extend [OF cy, of g1] obtain more where
    "compute_lines (snd (enumVariables ?f ?ys g1)) = compute_lines g1 @ more" by blast
  then have "palette_computes vars ! i = compute_lines g1 ! i"
    using lines lx by (simp add: palette_computes_def writeSetPaletteColor_def full nth_append)
  also have "\<dots> = (indexInPalette g,
        qmap_value (paletteIndices g1) (colorFallbackName (var_value ?v)) (- 1),
        TempColorData (red (Color_of (var_value ?v))) (green (Color_of (var_value ?v)))
          (blue (Color_of (var_value ?v))) (alpha (Color_of (var_value ?v))))"
    using lines lx by (simp add: nth_append)
  finally show ?thesis
    using gi lx pre by (simp add: fallback_index_def writeSetPaletteColor_def gen_inv_def)
qed

lemma finalize_cell_line:
  assumes pm: "palette_module vars"
    and nr: "\<not> ready_flag p"
    and ls: "length (status_cells p) = length vars"
    and ld: "length (data_cells p) = length vars"
    and i: "i < length vars"
    and ini: "status_cells p ! i = Initial"
    and line: "palette_computes vars ! i = (index, fallbackIndex, TempColorData r g b a)"
  shows "index = int i \<and> status_cells (state_before vars p i) ! i = Initial \<and>
     (if fallbackIndex \<ge> 0 \<and> status_cells (state_before vars p i) ! nat fallbackIndex \<noteq> Initial
      then data_cells (palette_finalize vars p) ! i =
             data_cells (state_before vars p i) ! nat fallbackIndex \<and>
           status_cells (palette_finalize vars p) ! i = Loaded
      else data_cells (palette_finalize vars p) ! i = Some (ColorData r g b a) \<and>
           status_cells (palette_finalize vars p) ! i = Created)"
proof -
  let ?cs = "palette_computes vars"
  let ?p0 = "p\<lparr>ready_flag := True\<rparr>"
  let ?b = "state_before vars p i"
  let ?m = "compute index fallbackIndex (TempColorData r g b a) ?b"
  have n: "length ?cs = length vars" by (rule palette_computes_shape(3) [OF pm])
  have ix: "fst (?cs ! j) = int j" if "j < length vars" for j
    using palette_computes_shape(4) [OF pm that] by simp
  from ix [OF i] line have index: "index = int i" by simp
  have split: "?cs = take i ?cs @ (?cs ! i) # drop (Suc i) ?cs"
    using i n by (simp add: id_take_nth_drop)
  have "palette_finalize vars p = run_computes ?cs ?p0"
    using nr by (simp add: palette_finalize_def finalize_def)
  also have "\<dots> = run_computes (take i ?cs @ (?cs ! i) # drop (Suc i) ?cs) ?p0"
    using split by simp
  also have "\<dots> = run_computes (drop (Suc i) ?cs) ?m"
    by (simp add: run_computes_append line state_before_def)
  finally have fin: "palette_finalize vars p = run_computes (drop (Suc i) ?cs) ?m" .
  have early: "\<forall>c \<in> set (take i ?cs). nat (fst c) \<noteq> i"
  proof
    fix c assume "c \<in> set (take i ?cs)"
    then obtain j where "j < i" "c = ?cs ! j" using i n by (auto simp: in_set_conv_nth)
    with ix [of j] i show "nat (fst c) \<noteq> i" by simp
  qed
  have late: "\<forall>c \<in> set (drop (Suc i) ?cs). nat (fst c) \<noteq> i"
  proof
    fix c assume "c \<in> set (drop (Suc i) ?cs)"
    then obtain k where k: "k < length vars - Suc i" "c = ?cs ! (Suc i + k)"
      using n by (auto simp: in_set_conv_nth)
    then have "Suc i + k < length vars" by simp
    from ix [OF this] k(2) show "nat (fst c) \<noteq> i" by simp
  qed
  have bi: "status_cells ?b ! i = Initial"
    using run_computes_other [OF early, of ?p0] ini by (simp add: state_before_def)
  have bl: "length (status_cells ?b) = length vars" "length (data_cells ?b) = length vars"
    using ls ld by (simp_all add: state_before_def)
  have after: "status_cells (palette_finalize vars p) ! i = status_cells ?m ! i"
    "data_cells (palette_finalize vars p) ! i = data_cells ?m ! i"
    using run_computes_other [OF late, of ?m] fin by simp_all
  show ?thesis
    using index bi bl i after by simp
qed

text \<open>
  What the emitted \<^verbatim>\<open>finalize()\<close> does for a cell that is \<open>Initial\<close>, on a palette that is not
  ready: the cell is still \<open>Initial\<close> when its own line is reached, and \<^verbatim>\<open>compute\<close> copies
  the fallback cell as soon as that cell is not \<open>Initial\<close>, marking the copy \<open>Loaded\<close>; the
  literal default is written, and the cell marked \<open>Created\<close>, in the other case only.
\<close>

lemma finalize_cell_rule:
  assumes pm: "palette_module vars"
    and nr: "\<not> ready_flag p"
    and ls: "length (status_cells p) = length vars"
    and ld: "length (data_cells p) = length vars"
    and i: "i < length vars"
    and ini: "status_cells p ! i = Initial"
  shows "status_cells (state_before vars p i) ! i = Initial \<and>
     (if fallback_index vars i \<ge> 0 \<and>
         status_cells (state_before vars p i) ! nat (fallback_index vars i) \<noteq> Initial
      then data_cells (palette_finalize vars p) ! i =
             data_cells (state_before vars p i) ! nat (fallback_index vars i) \<and>
           status_cells (palette_finalize vars p) ! i = Loaded
      else data_cells (palette_finalize vars p) ! i = Some (literal_default (vars ! i)) \<and>
           status_cells (palette_finalize vars p) ! i = Created)"
  using finalize_cell_line [OF pm nr ls ld i ini palette_computes_line [OF pm i]]
  by (simp add: literal_default_def Let_def)

subsection \<open>The states the class can reach\<close>

text \<open>
  Every palette reached from a default-constructed one by \<^verbatim>\<open>finalize\<close>, \<^verbatim>\<open>save\<close>, \<^verbatim>\<open>load\<close>,
  \<^verbatim>\<open>setColor\<close> and assignment has its non-\<open>Initial\<close> cells constructed and, when it is
  ready, no \<open>Initial\<close> cell: the states the theorems on \<^verbatim>\<open>save\<close> and on assignment are
  stated for.
\<close>

lemma finalize_ok:
  assumes pm: "palette_module vars"
    and cc: "cells_constructed (palette_count vars) p" and rc: "ready_complete p"
  shows "cells_constructed (palette_count vars) (palette_finalize vars p) \<and>
         ready_complete (palette_finalize vars p) \<and>
         Initial \<notin> set (status_cells (palette_finalize vars p))"
proof -
  have n: "palette_count vars = length vars" by (rule palette_computes_shape(2) [OF pm])
  have a: "cells_constructed (palette_count vars) (palette_finalize vars p)"
    using finalize_module(1) [OF pm] cc n by simp
  have b: "Initial \<notin> set (status_cells (palette_finalize vars p))"
  proof (cases "ready_flag p")
    case True
    with rc show ?thesis by (simp add: ready_complete_def palette_finalize_def finalize_def)
  next
    case False
    from finalize_module(2) [OF pm _ False] cc n show ?thesis by simp
  qed
  from a b show ?thesis by (simp add: ready_complete_def)
qed

lemma setData_ok:
  assumes cc: "cells_constructed n p" and rc: "ready_complete p" and i: "i < n"
  shows "cells_constructed n (setData i v p) \<and> ready_complete (setData i v p)"
proof -
  have "cells_constructed n (setData i v p)"
    using cc i by (auto simp: cells_constructed_iff nth_list_update)
  moreover have "ready_complete (setData i v p)"
    using rc by (auto simp: ready_complete_def dest: set_update_subset_insert [THEN subsetD])
  ultimately show ?thesis by simp
qed

lemma load_ok:
  assumes cc: "cells_constructed (palette_count vars) p" and rc: "ready_complete p"
  shows "cells_constructed (palette_count vars) (snd (palette_load vars cache p)) \<and>
         ready_complete (snd (palette_load vars cache p))"
proof (cases "length cache = 4 * palette_count vars")
  case False
  then show ?thesis using cc rc by (simp add: palette_load_def load_def mult.commute)
next
  case True
  from cc have l: "length (status_cells p) = palette_count vars"
    "length (data_cells p) = palette_count vars" by (simp_all add: cells_constructed_iff)
  from load_full [OF True l] show ?thesis
    by (simp add: cells_constructed_iff ready_complete_def)
qed

lemma assign_ok:
  assumes pm: "palette_module vars"
    and cc: "cells_constructed (palette_count vars) p" and rc: "ready_complete p"
    and co: "cells_constructed (palette_count vars) other"
  shows "cells_constructed (palette_count vars) (palette_assign vars other p) \<and>
         ready_complete (palette_assign vars other p)"
proof -
  let ?n = "palette_count vars"
  let ?q = "assign_loop ?n other p"
  from cc co have l: "length (status_cells p) = ?n" "length (data_cells p) = ?n"
    and con: "\<And>i. i < ?n \<Longrightarrow> status_cells p ! i \<noteq> Initial \<Longrightarrow> data_cells p ! i \<noteq> None"
    and cono: "\<And>i. i < ?n \<Longrightarrow> status_cells other ! i \<noteq> Initial \<Longrightarrow> data_cells other ! i \<noteq> None"
    by (simp_all add: cells_constructed_iff)
  from assign_loop_cells [of ?n p other] l
  have len: "length (status_cells ?q) = ?n" "length (data_cells ?q) = ?n"
    and st: "\<And>j. status_cells ?q ! j =
        (if j < ?n \<and> status_cells other ! j \<noteq> Loaded then Initial else status_cells p ! j)"
    and dt: "\<And>j. data_cells ?q ! j =
        (if j < ?n \<and> status_cells other ! j = Loaded then data_cells other ! j
         else if j < ?n \<and> status_cells p ! j \<noteq> Initial then None
         else data_cells p ! j)"
    and rd: "ready_flag ?q \<longleftrightarrow>
      ready_flag p \<and> (\<forall>j < ?n. status_cells other ! j = Loaded \<or> status_cells p ! j = Initial)"
    by simp_all
  have ccq: "cells_constructed ?n ?q"
    unfolding cells_constructed_iff using len con cono by (auto simp: st dt)
  have rcq: "ready_complete ?q"
  proof (cases "ready_flag ?q")
    case False
    then show ?thesis by (simp add: ready_complete_def)
  next
    case True
    with rd have rp: "ready_flag p"
      and same: "\<And>j. j < ?n \<Longrightarrow> status_cells other ! j = Loaded \<or> status_cells p ! j = Initial"
      by auto
    from rp rc l have full: "\<And>j. j < ?n \<Longrightarrow> status_cells p ! j \<noteq> Initial"
      by (auto simp: ready_complete_def in_set_conv_nth)
    have "status_cells ?q ! j \<noteq> Initial" if "j < ?n" for j
      using same [OF that] full [OF that] that by (simp add: st)
    then show ?thesis using len by (auto simp: ready_complete_def in_set_conv_nth)
  qed
  show ?thesis
  proof (cases "ready_flag p \<and> \<not> ready_flag ?q")
    case True
    then have "palette_assign vars other p = palette_finalize vars ?q"
      by (simp add: palette_assign_def operator_assign_def Let_def palette_finalize_def)
    with finalize_ok [OF pm ccq rcq] show ?thesis by simp
  next
    case False
    then have "palette_assign vars other p = ?q"
      by (auto simp add: palette_assign_def operator_assign_def Let_def)
    with ccq rcq show ?thesis by simp
  qed
qed

lemma reachable_ok:
  assumes pm: "palette_module vars" and r: "reachable vars p"
  shows "cells_constructed (palette_count vars) p \<and> ready_complete p"
  using r
proof (induction rule: reachable.induct)
  case constructed
  show ?case by (simp add: cells_constructed_iff ready_complete_def palette_default_def)
next
  case (finalized p)
  with finalize_ok [OF pm, of p] show ?case by simp
next
  case (saved p)
  have "snd (palette_save vars p) = palette_finalize vars p"
    by (cases "ready_flag p")
       (simp_all add: palette_save_def save_def Let_def palette_finalize_def finalize_def)
  with saved finalize_ok [OF pm, of p] show ?case by simp
next
  case (loaded p cache)
  with load_ok [of vars p cache] show ?case by simp
next
  case (colour_set p i v)
  with setData_ok [of "palette_count vars" p i v] show ?case by simp
next
  case (assigned p other)
  with assign_ok [OF pm, of p other] show ?case by simp
qed

text \<open>
  In \<^verbatim>\<open>finalize\<close> the cell of a fallback declared earlier has always been computed or
  loaded when the line of the variable runs: the literal default is only used when the
  fallback index is \<open>-1\<close> or the index of the variable itself.
\<close>

lemma finalize_fallback_earlier:
  assumes pm: "palette_module vars"
    and ls: "length (status_cells p) = length vars"
    and i: "i < length vars"
    and f: "0 \<le> fallback_index vars i" "fallback_index vars i < int i"
  shows "status_cells (state_before vars p i) ! nat (fallback_index vars i) \<noteq> Initial"
proof -
  let ?cs = "palette_computes vars"
  let ?f = "nat (fallback_index vars i)"
  have n: "length ?cs = length vars" by (rule palette_computes_shape(3) [OF pm])
  from f i have fi: "?f < i" "?f < length vars" by simp_all
  from palette_computes_shape(4) [OF pm fi(2)] have ix: "fst (?cs ! ?f) = int ?f" by simp
  have m: "?cs ! ?f \<in> set (take i ?cs)"
    using fi i n by (auto simp: in_set_conv_nth intro!: exI [of _ ?f])
  have "status_cells (run_computes (take i ?cs) (p\<lparr>ready_flag := True\<rparr>)) ! nat (fst (?cs ! ?f))
      \<noteq> Initial"
    using ix fi ls f(1) by (intro run_computes_sets [OF m]) simp_all
  then show ?thesis by (simp only: ix nat_int state_before_def simp_thms)
qed

text \<open>
  So the test of \<^verbatim>\<open>compute\<close> on the fallback cell never fails for a fallback declared
  earlier: whatever the palette held before, such a cell never receives its declared
  literal default.
\<close>

lemma finalize_literal_unused:
  assumes pm: "palette_module vars"
    and nr: "\<not> ready_flag p"
    and ls: "length (status_cells p) = length vars"
    and ld: "length (data_cells p) = length vars"
    and i: "i < length vars"
    and ini: "status_cells p ! i = Initial"
    and f: "0 \<le> fallback_index vars i" "fallback_index vars i < int i"
  shows "data_cells (palette_finalize vars p) ! i =
           data_cells (state_before vars p i) ! nat (fallback_index vars i) \<and>
         status_cells (palette_finalize vars p) ! i = Loaded"
  using finalize_cell_rule [OF pm nr ls ld i ini] finalize_fallback_earlier [OF pm ls i f] f(1)
  by simp

subsection \<open>The fallback of a cell that was only computed\<close>

text \<open>
  Claim C1 fails on the code. The claim (and the specification, twice) lets the fallback
  win only when its cell is already \<open>Loaded\<close>, and gives the cell its declared literal
  default when the fallback cell exists but is not \<open>Loaded\<close>. For the module
  \<open>windowBg = (1, 2, 3, 4)\<close>, \<open>windowBgOver = (5, 6, 7, 8)\<close> with fallback \<open>windowBg\<close>,
  \<^verbatim>\<open>finalize()\<close> on a default-constructed palette reaches the line of \<open>windowBgOver\<close> with
  the cell of \<open>windowBg\<close> \<open>Created\<close>, not \<open>Loaded\<close>; the emitted \<^verbatim>\<open>compute\<close> tests
  \<^verbatim>\<open>_status[fallbackIndex] != Status::Initial\<close>, copies \<open>(1, 2, 3, 4)\<close> and marks the copy
  \<open>Loaded\<close>, where the claim gives \<open>(5, 6, 7, 8)\<close>.
\<close>

theorem finalize_copies_created_fallback:
  "fallback_index example_fallback_palette 1 = 0 \<and>
   status_cells (state_before example_fallback_palette (palette_default 2) 1) ! 0 = Created \<and>
   literal_default (example_fallback_palette ! 1) = ColorData 5 6 7 8 \<and>
   palette_finalize example_fallback_palette (palette_default 2) =
     \<lparr>data_cells = [Some (ColorData 1 2 3 4), Some (ColorData 1 2 3 4)],
      status_cells = [Created, Loaded], ready_flag = True\<rparr> \<and>
   \<not> claimed_cell_rule example_fallback_palette (palette_default 2) 1"
  by code_simp

section \<open>Properties of the generated name matcher\<close>

text \<open>
  The text written for the names \<open>axy\<close>, \<open>ba\<close>, \<open>bb\<close>: the switch on \<^verbatim>\<open>data[1]\<close> under
  \<^verbatim>\<open>case 'b':\<close> is closed and the label \<^verbatim>\<open>case 'a':\<close> follows it with no statement in
  between that leaves the outer switch.
\<close>

lemma example_matcher_indices:
  "paletteIndices (snd (writeSetPaletteColor example_matcher_palette)) =
     [(''axy'', 0), (''ba'', 1), (''bb'', 2)]"
  by code_simp

lemma example_matcher_text:
  "getPaletteIndex_text [(''axy'', 0), (''ba'', 1), (''bb'', 2)] =
     [IfSizeGtSwitch 0, CaseLabel CHR ''b'',
        IfSizeGtSwitch 1, CaseLabel CHR ''b'', Return (Some 2) None 2,
                          CaseLabel CHR ''a'', Return (Some 2) None 1,
        CloseSwitch,
      CaseLabel CHR ''a'', Return (Some 3) (Some (1, ''xy'', 2)) 0,
      CloseSwitch]"
  by code_simp

text \<open>
  Claim C7 fails on the code. \<^verbatim>\<open>getPaletteIndex\<close> of the module with the colours \<open>axy\<close>,
  \<open>ba\<close>, \<open>bb\<close> returns index 0 for \<open>axy\<close>, and index 0 as well for \<open>bxy\<close>, which is not a
  declared name: the switch on \<^verbatim>\<open>data[1]\<close> has no label \<open>x\<close>, control leaves it and falls
  through to the statement of \<^verbatim>\<open>case 'a':\<close>, which compares the size and the bytes from
  position 1 only.
\<close>

theorem getPaletteIndex_falls_through:
  "map (name_back \<circ> var_name) example_matcher_palette = [''axy'', ''ba'', ''bb''] \<and>
   getPaletteIndex example_matcher_palette ''axy'' = Some 0 \<and>
   getPaletteIndex example_matcher_palette ''bxy'' = Some 0"
  by code_simp

section \<open>Properties of the palette checksum\<close>

subsection \<open>The table of \<open>Crc32Table\<close>\<close>

text \<open>
  \<^verbatim>\<open>reflect(val, ch)\<close> reverses the low \<open>ch\<close> bits of \<open>val\<close>. Reversing all 32 bits turns one
  left-shifting division step by \<open>0x04C11DB7\<close> (\<open>table_step\<close>) into one right-shifting
  step by \<open>0xEDB88320\<close> (\<open>crc32_bit\<close>), so entry \<open>i\<close> of the table is eight reflected steps
  on \<open>i\<close>.
\<close>

lemma and_one_iff: "(w :: 32 word) AND 1 \<noteq> 0 \<longleftrightarrow> bit w 0"
  by (simp add: and_one_eq bit_0 even_iff_mod_2_eq_zero)

lemma and_top_iff: "(w :: 32 word) AND push_bit 31 1 \<noteq> 0 \<longleftrightarrow> bit w 31"
  by (metis bit_iff_and_push_bit_not_eq_0)

lemma crc32_bit_bits:
  "n < 32 \<Longrightarrow> bit (crc32_bit c) n \<longleftrightarrow> (bit c (Suc n) \<noteq> (bit c 0 \<and> bit (0xEDB88320 :: 32 word) n))"
  by (auto simp: crc32_bit_def bit_simps)

lemma crc32_bit_xor: "crc32_bit (u XOR v) = crc32_bit u XOR crc32_bit v"
  by (rule bit_word_eqI) (auto simp: crc32_bit_bits bit_simps)

lemma crc32_bits_xor: "(crc32_bit ^^ k) (u XOR v) = (crc32_bit ^^ k) u XOR (crc32_bit ^^ k) v"
  by (induction k) (simp_all add: crc32_bit_xor)

lemma crc32_bits_shift:
  "take_bit k c = 0 \<Longrightarrow> (crc32_bit ^^ k) c = drop_bit k c"
proof (induction k arbitrary: c)
  case 0
  then show ?case by simp
next
  case (Suc k)
  from Suc.prems have b0: "\<not> bit c 0"
    by (metis bit_of_bool_iff bit_take_bit_iff of_bool_eq(1) zero_less_Suc)
  have t: "take_bit k (drop_bit 1 c) = 0" using Suc.prems
    by (metis diff_Suc_1 drop_bit_of_0 drop_bit_take_bit)
  have "(crc32_bit ^^ Suc k) c = (crc32_bit ^^ k) (crc32_bit c)"
    by (simp add: funpow_swap1)
  also have "crc32_bit c = drop_bit 1 c" using b0 by (simp add: crc32_bit_def)
  also have "(crc32_bit ^^ k) (drop_bit 1 c) = drop_bit k (drop_bit 1 c)" by (rule Suc.IH [OF t])
  finally show ?case by simp
qed

lemma reflect_fold:
  assumes "k \<le> ch" "ch \<le> 32"
  shows "fst (fold (reflect_step ch) [1..<Suc k] (val, 0)) = drop_bit k val \<and>
         (\<forall>n. bit (snd (fold (reflect_step ch) [1..<Suc k] (val, 0))) n \<longleftrightarrow>
               ch - k \<le> n \<and> n < ch \<and> bit val (ch - 1 - n))"
  using assms
proof (induction k)
  case 0
  then show ?case by simp
next
  case (Suc k)
  obtain v r where s: "fold (reflect_step ch) [1..<Suc k] (val, 0) = (v, r)"
    by (cases "fold (reflect_step ch) [1..<Suc k] (val, 0)")
  from Suc s have IH: "v = drop_bit k val"
    "\<And>n. bit r n \<longleftrightarrow> ch - k \<le> n \<and> n < ch \<and> bit val (ch - 1 - n)"
    by simp_all
  have "[1..<Suc (Suc k)] = [1..<Suc k] @ [Suc k]" by simp
  then have step: "fold (reflect_step ch) [1..<Suc (Suc k)] (val, 0) = reflect_step ch (Suc k) (v, r)"
    by (simp only: fold_append o_apply s fold_simps)
  have b: "v AND 1 \<noteq> 0 \<longleftrightarrow> bit val k"
    by (simp add: IH(1) and_one_iff bit_simps)
  have v': "drop_bit 1 v = drop_bit (Suc k) val" by (simp add: IH(1))
  have bits: "bit (if v AND 1 \<noteq> 0 then r OR push_bit (ch - Suc k) 1 else r) n \<longleftrightarrow>
              ch - Suc k \<le> n \<and> n < ch \<and> bit val (ch - 1 - n)" for n
  proof (cases "n = ch - Suc k")
    case True
    with Suc.prems have "ch - 1 - n = k" "n < 32" "\<not> ch - k \<le> n" "n < ch" by simp_all
    with True b show ?thesis by (auto simp: IH(2) bit_simps)
  next
    case False
    then have "ch - Suc k \<le> n \<longleftrightarrow> ch - k \<le> n" using Suc.prems by auto
    with False show ?thesis by (auto simp: IH(2) bit_simps)
  qed
  have res: "fold (reflect_step ch) [1..<Suc (Suc k)] (val, 0) =
      (drop_bit (Suc k) val, if v AND 1 \<noteq> 0 then r OR push_bit (ch - Suc k) 1 else r)"
    unfolding step reflect_step_def prod.case v' ..
  show ?case
    unfolding res fst_conv snd_conv using bits by blast
qed

lemma reflect_bits:
  assumes "ch \<le> 32"
  shows "bit (reflect val ch) n \<longleftrightarrow> n < ch \<and> bit val (ch - 1 - n)"
  using reflect_fold [of ch ch val] assms by (simp add: reflect_def)


lemma reflect_poly: "reflect poly 32 = 0xEDB88320"
  by code_simp

lemma poly_bits: "n < 32 \<Longrightarrow> bit poly (31 - n) \<longleftrightarrow> bit (0xEDB88320 :: 32 word) n"
  using reflect_bits [of 32 poly n] by (simp add: reflect_poly)

lemma push_one_bits: "bit (push_bit 1 (d :: 32 word)) n \<longleftrightarrow> 0 < n \<and> n < 32 \<and> bit d (n - 1)"
proof -
  have "bit (push_bit 1 d) n \<longleftrightarrow> 1 \<le> n \<and> possible_bit TYPE(32 word) n \<and> bit d (n - 1)"
    by (rule bit_push_bit_iff)
  then show ?thesis by auto
qed

lemma table_step_bits:
  "n < 32 \<Longrightarrow> bit (table_step d) n \<longleftrightarrow> ((0 < n \<and> bit d (n - 1)) \<noteq> (bit d 31 \<and> bit poly n))"
  unfolding table_step_def and_top_iff
  by (cases "bit d 31") (simp_all only: if_True if_False bit_xor_iff push_one_bits, auto)

lemma table_step_reflect: "reflect (table_step d) 32 = crc32_bit (reflect d 32)"
proof (rule bit_word_eqI)
  fix n assume "n < LENGTH(32)"
  then have n: "n < 32" by simp
  then have m: "31 - n < 32" by simp
  have a: "(0 < 31 - n \<and> bit d (31 - n - 1)) \<longleftrightarrow> (Suc n < 32 \<and> bit d (32 - 1 - Suc n))"
    using n by (auto simp: Suc_diff_Suc)
  have l: "bit (reflect (table_step d) 32) n \<longleftrightarrow>
      ((0 < 31 - n \<and> bit d (31 - n - 1)) \<noteq> (bit d 31 \<and> bit poly (31 - n)))"
    using n table_step_bits [OF m, of d] by (simp add: reflect_bits)
  have r: "bit (crc32_bit (reflect d 32)) n \<longleftrightarrow>
      ((Suc n < 32 \<and> bit d (32 - 1 - Suc n)) \<noteq> (bit d 31 \<and> bit (0xEDB88320 :: 32 word) n))"
    using n by (simp add: crc32_bit_bits reflect_bits)
  show "bit (reflect (table_step d) 32) n = bit (crc32_bit (reflect d 32)) n"
    unfolding l r a poly_bits [OF n] ..
qed

lemma fold_const: "fold (\<lambda>j. f) xs = f ^^ length xs"
  by (induction xs) (simp_all add: funpow_swap1 fun_eq_iff)

lemma table_steps_reflect: "reflect ((table_step ^^ k) d) 32 = (crc32_bit ^^ k) (reflect d 32)"
  by (induction k) (simp_all add: table_step_reflect)

lemma reflect_byte:
  assumes "drop_bit 8 (z :: 32 word) = 0"
  shows "reflect (push_bit 24 (reflect z 8)) 32 = z"
proof (rule bit_word_eqI)
  fix n assume "n < LENGTH(32)"
  then have n: "n < 32" by simp
  have hi: "\<not> bit z n" if "8 \<le> n"
  proof -
    have "bit z n = bit (drop_bit 8 z) (n - 8)" using that by (simp add: bit_drop_bit_eq)
    then show ?thesis by (simp add: assms)
  qed
  show "bit (reflect (push_bit 24 (reflect z 8)) 32) n = bit z n"
  proof (cases "n < 8")
    case True
    then show ?thesis using n by (simp add: reflect_bits bit_simps) auto
  next
    case False
    then show ?thesis using n hi by (auto simp add: reflect_bits bit_simps)
  qed
qed

lemma Crc32Table_entry:
  "drop_bit 8 (z :: 32 word) = 0 \<Longrightarrow> Crc32Table (unat z) = (crc32_bit ^^ 8) z"
  by (simp add: Crc32Table_def fold_const table_steps_reflect reflect_byte)

subsection \<open>One byte through the table\<close>

lemma ucast_low: "drop_bit 8 (ucast (b :: 8 word) :: 32 word) = 0"
  by (rule bit_word_eqI) (auto simp: bit_simps dest: bit_imp_le_length)

lemma and_ff: "(c :: 32 word) AND 0xFF = take_bit 8 c"
proof -
  have "(0xFF :: 32 word) = mask 8" by (simp add: mask_eq_exp_minus_1)
  then show ?thesis by (simp add: take_bit_eq_mask)
qed

lemma split_low: "(c :: 32 word) = push_bit 8 (drop_bit 8 c) XOR take_bit 8 c"
  by (rule bit_word_eqI) (auto simp: bit_simps)

lemma hashCrc32_step_eq: "hashCrc32_step b crc = crc32_byte b crc"
proof -
  let ?z = "(crc AND 0xFF) XOR ucast b"
  let ?H = "push_bit 8 (drop_bit 8 crc)"
  have z: "drop_bit 8 ?z = 0" by (simp add: and_ff ucast_low drop_bit_take_bit)
  have H: "take_bit 8 ?H = 0" by (simp add: take_bit_push_bit)
  have "crc XOR ucast b = (?H XOR take_bit 8 crc) XOR ucast b"
    using split_low [of crc] by (rule arg_cong [where f = "\<lambda>w. w XOR ucast b"])
  then have "crc XOR ucast b = ?H XOR ?z"
    by (simp only: and_ff xor.assoc)
  then have "crc32_byte b crc = (crc32_bit ^^ 8) ?H XOR (crc32_bit ^^ 8) ?z"
    by (simp add: crc32_byte_def crc32_bits_xor)
  also have "(crc32_bit ^^ 8) ?H = drop_bit 8 ?H" by (rule crc32_bits_shift [OF H])
  also have "drop_bit 8 ?H = drop_bit 8 crc"
    by (rule bit_word_eqI) (auto simp: bit_simps dest: bit_imp_le_length)
  finally show ?thesis
    by (simp add: hashCrc32_step_def Crc32Table_entry [OF z])
qed

lemma hashCrc32_eq: "hashCrc32 bs = crc32_ieee bs"
proof -
  have "fold hashCrc32_step bs c = fold crc32_byte bs c" for c
    by (induction bs arbitrary: c) (simp_all add: hashCrc32_step_eq)
  then show ?thesis by (simp add: hashCrc32_def crc32_ieee_def)
qed


lemma reflected_polynomial: "word_reverse (0x04C11DB7 :: 32 word) = 0xEDB88320"
  by code_simp

lemma crc32_ieee_check: "crc32_ieee [0x61] = 0xE8B7BE43"
  by code_simp

subsection \<open>The checksum string\<close>

lemma visitor_checksum:
  assumes "type_tag (var_value v) = Tag_Color"
  shows "checksumString (snd (set_palette_visitor v g)) =
     checksumString g @ ''&'' @ name_back (var_name v) @ '':'' @ colorAssignmentCode (var_value v)"
  using assms by (simp add: set_palette_visitor_def Let_def)

lemma enum_checksum:
  assumes "list_all (\<lambda>v. type_tag (var_value v) = Tag_Color) vars"
  shows "checksumString (snd (enumVariables set_palette_visitor vars g)) =
           checksumString g @ checksum_text vars"
  using assms
proof (induction vars arbitrary: g)
  case Nil
  then show ?case by (simp add: checksum_text_def)
next
  case (Cons v vars)
  then have tv: "type_tag (var_value v) = Tag_Color"
    and rest: "list_all (\<lambda>v. type_tag (var_value v) = Tag_Color) vars" by simp_all
  obtain g1 where vv: "set_palette_visitor v g = (True, g1)"
    using visitor_lines(1) [OF tv, of g] by simp
  from visitor_checksum [OF tv, of g] vv
  have "checksumString g1 =
     checksumString g @ ''&'' @ name_back (var_name v) @ '':'' @ colorAssignmentCode (var_value v)"
    by simp
  with Cons.IH [OF rest, of g1] vv show ?case by (simp add: checksum_text_def)
qed

text \<open>
  Claim C6. \<^verbatim>\<open>hashCrc32\<close> with its hand-built table computes, on every byte string, the
  reflected CRC-32 of IEEE 802.3 (polynomial \<open>0x04C11DB7\<close>, register and result
  complemented); and the checksum emitted for a palette module is that CRC-32, as a
  signed 32-bit number, of the concatenation over the colour variables in declaration
  order of \<open>&\<close>, the name, \<open>:\<close> and the assignment literal of the value.
\<close>

theorem palette_checksum_is_crc32:
  "hashCrc32 bs = crc32_ieee bs \<and>
   (palette_module vars \<longrightarrow>
      palette_checksum vars = sint (crc32_ieee (map of_char (checksum_text vars))))"
proof -
  have "checksumString (snd (writeSetPaletteColor vars)) = checksum_text vars"
    if "palette_module vars"
    using enum_checksum [of vars palette_gen_start] that
    by (simp add: writeSetPaletteColor_def palette_module_def palette_gen_start_def)
  then show ?thesis by (simp add: palette_checksum_def hashCrc32_eq)
qed

theorem palette_checksum_is_crc32_witness:
  "palette_module example_fallback_palette \<and>
   checksum_text example_fallback_palette = ''&windowBg:{ 1, 2, 3, 4 }&windowBgOver:{ 5, 6, 7, 8 }'' \<and>
   palette_checksum example_fallback_palette =
     sint (crc32_ieee (map of_char (checksum_text example_fallback_palette)))"
proof -
  have a: "palette_module example_fallback_palette" by code_simp
  have b: "checksum_text example_fallback_palette =
    ''&windowBg:{ 1, 2, 3, 4 }&windowBgOver:{ 5, 6, 7, 8 }''" by code_simp
  from palette_checksum_is_crc32 [of "[]" example_fallback_palette] a b show ?thesis by blast
qed

section \<open>Properties of the icon mask compositor\<close>

lemma apply_modifiers_keep:
  assumes "\<forall>m \<in> set ms. \<exists>fn. GetModifier m = Some fn \<and> keeps_size_format fn"
  shows "\<exists>a' b'. apply_modifiers GetModifier path ms (a, b) = Inr (a', b') \<and>
           width a' = width a \<and> height a' = height a \<and> format a' = format a \<and>
           width b' = width b \<and> height b' = height b \<and> format b' = format b"
  using assms
proof (induction ms arbitrary: a b)
  case Nil
  then show ?case by simp
next
  case (Cons m ms)
  then obtain fn where fn: "GetModifier m = Some fn" "keeps_size_format fn" by auto
  obtain a1 b1 where ab: "fn (a, b) = (a1, b1)" by (cases "fn (a, b)")
  with fn(2) have k: "width a1 = width a" "height a1 = height a" "format a1 = format a"
    "width b1 = width b" "height b1 = height b" "format b1 = format b"
    unfolding keeps_size_format_def by (metis fst_conv snd_conv)+
  from Cons.prems have "\<forall>m \<in> set ms. \<exists>fn. GetModifier m = Some fn \<and> keeps_size_format fn" by simp
  from Cons.IH [OF this, of a1 b1] k fn(1) ab show ?case by simp
qed

text \<open>
  Claim C9. For a base image of size \<open>W\<close> by \<open>H\<close> and a double image in the same pixel
  format (both read from their files, the modifiers of the file name registered and
  keeping sizes and format): when the double image is exactly \<open>2W\<close> by \<open>2H\<close>, the
  composed canvas is \<open>2W + W\<close> wide and \<open>2H + height_150\<close> tall, \<open>height_150\<close> the
  height of the 150% variant; when the double image is not twice the base in either
  axis, composition fails with the size error and no output. With the rounding
  pixel-scale function a 10 by 10 base and a 20 by 20 double give 30 by 35, and a 19 by
  20 double fails.
\<close>

theorem icon_canvas_size:
  assumes base: "load_image (hd (split_at CHR ''-'' filepath) @ ''.png'') = Image W H f"
    and dbl: "load_image (hd (split_at CHR ''-'' filepath) @ ''@2x.png'') = Image W2 H2 f"
    and pos: "0 < W" "0 < H" "f \<noteq> 0"
    and mods: "\<forall>m \<in> set (tl (split_at CHR ''-'' filepath)).
                 \<exists>fn. GetModifier m = Some fn \<and> keeps_size_format fn"
  shows "(W2 = 2 * W \<and> H2 = 2 * H \<longrightarrow>
           (\<exists>canvas. iconMaskValuePng pxAdjust GetModifier load_image filepath = Inr canvas \<and>
              width canvas = 2 * W + W \<and>
              height canvas = 2 * H + height_150 pxAdjust (Image W H f) (Image W2 H2 f))) \<and>
         (W2 \<noteq> 2 * W \<or> H2 \<noteq> 2 * H \<longrightarrow>
            iconMaskValuePng pxAdjust GetModifier load_image filepath = Inl kErrorBadIconSize)"
proof (intro conjI impI)
  assume "W2 \<noteq> 2 * W \<or> H2 \<noteq> 2 * H"
  then show "iconMaskValuePng pxAdjust GetModifier load_image filepath = Inl kErrorBadIconSize"
    using base dbl by (auto simp: iconMaskValuePng_def Let_def)
next
  assume sz: "W2 = 2 * W \<and> H2 = 2 * H"
  let ?path = "hd (split_at CHR ''-'' filepath)"
  from apply_modifiers_keep [OF mods, of ?path "Image W H f" "Image W2 H2 f"]
  obtain a' b' where m: "apply_modifiers GetModifier ?path (tl (split_at CHR ''-'' filepath))
        (Image W H f, Image W2 H2 f) = Inr (a', b')"
    and k: "width a' = W" "height a' = H" "format a' = f"
      "width b' = W2" "height b' = H2" "format b' = f"
    by auto
  let ?h = "height (scaled b' (pxAdjust (width a') 6) (pxAdjust (height a') 6))"
  have h0: "0 \<le> ?h" by (auto simp: scaled_def)
  have b_img: "b' = Image W2 H2 f" using k(4-6) pos sz by (cases b') auto
  have a_img: "a' = Image W H f" using k(1-3) pos by (cases a') auto
  have h150: "?h = height_150 pxAdjust (Image W H f) (Image W2 H2 f)"
    by (simp add: height_150_def a_img b_img)
  let ?canvas = "QImage_new (width b' + width a') (height b' + ?h) (format a')"
  have c: "?canvas = Image (2 * W + W) (2 * H + ?h) f"
    using pos sz h0 k by (simp add: QImage_new_def a_img b_img)
  have "iconMaskValuePng pxAdjust GetModifier load_image filepath = Inr ?canvas"
    using base dbl sz m c by (simp add: iconMaskValuePng_def Let_def)
  with c h150 show "\<exists>canvas. iconMaskValuePng pxAdjust GetModifier load_image filepath = Inr canvas \<and>
              width canvas = 2 * W + W \<and>
              height canvas = 2 * H + height_150 pxAdjust (Image W H f) (Image W2 H2 f)"
    by simp
qed


theorem icon_canvas_size_witness:
  "(\<exists>canvas. iconMaskValuePng pxAdjust_rounded example_GetModifier example_load_image
               ''icons/send-flip_horizontal'' = Inr canvas \<and>
             width canvas = 30 \<and> height canvas = 35) \<and>
   height_150 pxAdjust_rounded (Image 10 10 1) (Image 20 20 1) = 15 \<and>
   iconMaskValuePng pxAdjust_rounded example_GetModifier example_load_image ''icons/bad'' =
     Inl kErrorBadIconSize"
proof -
  have s1: "split_at CHR ''-'' ''icons/send-flip_horizontal'' = [''icons/send'', ''flip_horizontal'']"
    by code_simp
  have a1: "example_load_image (hd (split_at CHR ''-'' ''icons/send-flip_horizontal'') @ ''.png'') =
      Image 10 10 1" by code_simp
  have b1: "example_load_image (hd (split_at CHR ''-'' ''icons/send-flip_horizontal'') @ ''@2x.png'') =
      Image 20 20 1" by code_simp
  have m1: "\<forall>m \<in> set (tl (split_at CHR ''-'' ''icons/send-flip_horizontal'')).
      \<exists>fn. example_GetModifier m = Some fn \<and> keeps_size_format fn"
    unfolding s1 by (simp add: example_GetModifier_def keeps_size_format_def)
  have s2: "split_at CHR ''-'' ''icons/bad'' = [''icons/bad'']" by code_simp
  have a2: "example_load_image (hd (split_at CHR ''-'' ''icons/bad'') @ ''.png'') = Image 10 10 1"
    by code_simp
  have b2: "example_load_image (hd (split_at CHR ''-'' ''icons/bad'') @ ''@2x.png'') = Image 19 20 1"
    by code_simp
  have m2: "\<forall>m \<in> set (tl (split_at CHR ''-'' ''icons/bad'')).
      \<exists>fn. example_GetModifier m = Some fn \<and> keeps_size_format fn"
    unfolding s2 by simp
  have h: "height_150 pxAdjust_rounded (Image 10 10 1) (Image 20 20 1) = 15" by code_simp
  from icon_canvas_size [OF a1 b1 _ _ _ m1, of pxAdjust_rounded]
       icon_canvas_size [OF a2 b2 _ _ _ m2, of pxAdjust_rounded] h
  show ?thesis by simp
qed

section \<open>Properties of the collector of unique values\<close>

subsection \<open>The keys collected\<close>

lemma qmap_insert_keys: "fst ` set (qmap_insert k v m) = insert k (fst ` set m)"
proof (induction m)
  case Nil
  then show ?case by simp
next
  case (Cons kv m)
  obtain k' v' where kv: "kv = (k', v')" by (cases kv)
  show ?case
    unfolding kv using Cons.IH by (simp add: insert_commute)
qed

lemma qmap_insert_sorted:
  "sorted_wrt (<) (map fst m) \<Longrightarrow> sorted_wrt (<) (map fst (qmap_insert k v m))"
proof (induction m)
  case Nil
  then show ?case by simp
next
  case (Cons kv m)
  obtain k' v' where kv: "kv = (k', v')" by (cases kv)
  from Cons.prems have tl: "sorted_wrt (<) (map fst m)" and hd: "\<forall>x \<in> fst ` set m. k' < x"
    by (auto simp: kv)
  show ?case
  proof (cases "k < k'")
    case True
    with Cons.prems hd show ?thesis by (auto simp: kv)
  next
    case False
    show ?thesis
    proof (cases "k = k'")
      case True
      with Cons.prems show ?thesis by (auto simp: kv)
    next
      case ne: False
      with False have "k' < k" by simp
      with hd have "\<forall>x \<in> fst ` set (qmap_insert k v m). k' < x"
        unfolding qmap_insert_keys by simp
      with Cons.IH [OF tl] False ne show ?thesis by (auto simp: kv)
    qed
  qed
qed

lemma insert_px_keys [simp]: "px_keys (insert_px v c) = insert v (px_keys c)"
  by (simp add: px_keys_def insert_px_def qmap_insert_keys)

lemma insert_px_sorted [simp]: "px_sorted c \<Longrightarrow> px_sorted (insert_px v c)"
  by (simp add: px_sorted_def insert_px_def qmap_insert_sorted)

lemma collect_font_px [simp]:
  "px_keys (collect_font v c) = insert (font_size v) (px_keys c)"
  "px_sorted c \<Longrightarrow> px_sorted (collect_font v c)"
  using insert_px_keys [of "font_size v" c] insert_px_sorted [of c "font_size v"]
  by (auto simp: collect_font_def Let_def px_keys_def px_sorted_def)

lemma collect_part_px [simp]:
  "px_keys (collect_part part c) =
     insert (point_y (Point_of (part_offset part))) (insert (point_x (Point_of (part_offset part))) (px_keys c))"
  "px_sorted c \<Longrightarrow> px_sorted (collect_part part c)"
proof -
  let ?c2 = "insert_px (point_y (Point_of (part_offset part)))
               (insert_px (point_x (Point_of (part_offset part))) c)"
  have k: "px_keys (collect_part part c) = px_keys ?c2"
    by (simp add: collect_part_def Let_def px_keys_def)
  have s: "px_sorted (collect_part part c) = px_sorted ?c2"
    by (simp add: collect_part_def Let_def px_sorted_def)
  show "px_keys (collect_part part c) =
     insert (point_y (Point_of (part_offset part))) (insert (point_x (Point_of (part_offset part))) (px_keys c))"
    unfolding k by simp
  show "px_sorted c \<Longrightarrow> px_sorted (collect_part part c)"
    unfolding s by simp
qed

lemma collect_parts_px:
  "px_keys (fold collect_part parts c) =
     px_keys c \<union> set (concat (map (\<lambda>part. [point_x (Point_of (part_offset part)),
                                  point_y (Point_of (part_offset part))]) parts))"
  "px_sorted c \<Longrightarrow> px_sorted (fold collect_part parts c)"
  by (induction parts arbitrary: c) auto


lemma collector_px:
  "px_sorted c \<Longrightarrow>
     px_sorted (snd (collector var c)) \<and>
     (fst (collector var c) \<longrightarrow>
        px_keys (snd (collector var c)) = px_keys c \<union> set (px_occurrences var))"
  and collect_fields_px: "px_sorted c \<Longrightarrow>
     px_sorted (snd (collect_fields fs c)) \<and>
     (fst (collect_fields fs c) \<longrightarrow>
        px_keys (snd (collect_fields fs c)) = px_keys c \<union> set (px_occurrences_fields fs))"
proof (induction var c and fs c rule: collector_collect_fields.induct)
  case (1 n copy d c)
  show ?case
  proof (cases "copy \<noteq> []")
    case True
    with "1.prems" show ?thesis by simp
  next
    case False
    then have copy: "copy = []" by simp
    show ?thesis
    proof (cases d)
      case (D_Struct nm flds)
      show ?thesis
      proof (cases flds)
        case None
        with D_Struct copy "1.prems" show ?thesis by simp
      next
        case (Some fs)
        from "1.IH" [OF False D_Struct Some "1.prems"] D_Struct Some copy
        show ?thesis by simp
      qed
    next
      case (D_Icon parts)
      with copy "1.prems" show ?thesis by (simp add: collect_parts_px)
    qed (use copy "1.prems" in \<open>auto\<close>)
  qed
next
  case (2 c)
  then show ?case by simp
next
  case (3 field fs c)
  obtain ok c' where r: "collector field c = (ok, c')" by (cases "collector field c")
  from "3.IH"(1) [OF "3.prems"] r
  have s': "px_sorted c'" and k': "ok \<Longrightarrow> px_keys c' = px_keys c \<union> set (px_occurrences field)"
    by simp_all
  show ?case
  proof (cases ok)
    case False
    with r s' show ?thesis by simp
  next
    case True
    then have okT: "ok = True" by simp
    from "3.IH"(2) [OF r [symmetric] okT s'] k' [OF True] r True
    show ?thesis by (auto simp: Un_assoc)
  qed
qed

lemma enumVariables_collector: "enumVariables collector vars c = collect_fields vars c"
  by (induction vars arbitrary: c) (auto split: prod.splits bool.splits)


subsection \<open>Names of the pixel constants\<close>

lemma digit_char_inj:
  assumes "d < 10" "e < 10" "digit_char d = digit_char e"
  shows "d = e"
proof -
  have "distinct ''0123456789''" by simp
  with assms show ?thesis
    unfolding digit_char_def by (simp add: nth_eq_iff_index_eq)
qed

lemma digit_char_digit: "d < 10 \<Longrightarrow> digit_char d \<in> set ''0123456789''"
  unfolding digit_char_def by (rule nth_mem) simp

lemma number_nat_simps:
  "n < 10 \<Longrightarrow> number_nat n = [digit_char n]"
  "\<not> n < 10 \<Longrightarrow> number_nat n = number_nat (n div 10) @ [digit_char (n mod 10)]"
  by simp_all

declare number_nat.simps [simp del]

lemma number_nat_nonempty [simp]: "number_nat n \<noteq> []" "[] \<noteq> number_nat n"
  by (cases "n < 10"; simp add: number_nat_simps)+

lemma number_nat_digits: "set (number_nat n) \<subseteq> set ''0123456789''"
proof (induction n rule: number_nat.induct)
  case (1 n)
  show ?case
  proof (cases "n < 10")
    case True
    then show ?thesis using digit_char_digit [of n] by (simp add: number_nat_simps)
  next
    case False
    have "n mod 10 < 10" by simp
    from digit_char_digit [OF this] "1.IH" [OF False] False
    show ?thesis by (simp add: number_nat_simps)
  qed
qed

lemma number_nat_inj: "number_nat n = number_nat m \<Longrightarrow> n = m"
proof (induction n arbitrary: m rule: number_nat.induct)
  case (1 n)
  show ?case
  proof (cases "n < 10")
    case True
    show ?thesis
    proof (cases "m < 10")
      case m: True
      with True "1.prems" have "digit_char n = digit_char m" by (simp add: number_nat_simps)
      with True m show ?thesis by (rule digit_char_inj)
    next
      case False
      with True "1.prems" show ?thesis by (simp add: number_nat_simps)
    qed
  next
    case False
    show ?thesis
    proof (cases "m < 10")
      case True
      with False "1.prems" show ?thesis by (simp add: number_nat_simps)
    next
      case m: False
      from False m "1.prems" have a: "number_nat (n div 10) = number_nat (m div 10)"
        and b: "digit_char (n mod 10) = digit_char (m mod 10)"
        by (simp_all add: number_nat_simps)
      from "1.IH" [OF False a] have "n div 10 = m div 10" .
      moreover from b have "n mod 10 = m mod 10" by (intro digit_char_inj) simp_all
      ultimately show ?thesis by (metis div_mult_mod_eq)
    qed
  qed
qed

lemma number_nat_hd: "hd (number_nat n) \<in> set ''0123456789''"
proof -
  have "hd (number_nat n) \<in> set (number_nat n)" by (rule hd_in_set) simp
  with number_nat_digits [of n] show ?thesis by (rule subsetD)
qed

lemma number_inj: "number a = number b \<Longrightarrow> a = b"
proof -
  assume eq: "number a = number b"
  have neg: "number_nat k \<noteq> CHR ''-'' # xs" "CHR ''-'' # xs \<noteq> number_nat k" for k xs
  proof -
    show "number_nat k \<noteq> CHR ''-'' # xs"
    proof
      assume "number_nat k = CHR ''-'' # xs"
      then have "hd (number_nat k) = CHR ''-''" by simp
      with number_nat_hd [of k] show False by auto
    qed
    then show "CHR ''-'' # xs \<noteq> number_nat k" by (rule not_sym)
  qed
  show ?thesis
  proof (cases "a < 0"; cases "b < 0")
    assume "a < 0" "b < 0"
    with eq have "nat (- a) = nat (- b)" by (auto simp: number_def dest: number_nat_inj)
    with \<open>a < 0\<close> \<open>b < 0\<close> show ?thesis by simp
  next
    assume "a < 0" "\<not> b < 0"
    with eq show ?thesis by (auto simp: number_def neg)
  next
    assume "\<not> a < 0" "b < 0"
    with eq show ?thesis by (auto simp: number_def neg)
  next
    assume "\<not> a < 0" "\<not> b < 0"
    with eq have "nat a = nat b" by (auto simp: number_def dest: number_nat_inj)
    with \<open>\<not> a < 0\<close> \<open>\<not> b < 0\<close> show ?thesis by simp
  qed
qed

lemma number_not_m: "number a \<noteq> CHR ''m'' # xs" "CHR ''m'' # xs \<noteq> number a"
proof -
  show "number a \<noteq> CHR ''m'' # xs"
  proof
    assume eq: "number a = CHR ''m'' # xs"
    show False
    proof (cases "a < 0")
      case True
      with eq show False by (simp add: number_def)
    next
      case False
      with eq have "hd (number_nat (nat a)) = CHR ''m''" by (simp add: number_def)
      with number_nat_hd [of "nat a"] show False by auto
    qed
  qed
  then show "CHR ''m'' # xs \<noteq> number a" by (rule not_sym)
qed

lemma int32_wrap_neg_inj:
  assumes "int32 v" "int32 w" "v < 0" "w < 0" "int32_wrap (- v) = int32_wrap (- w)"
  shows "v = w"
proof -
  have w: "int32_wrap (- u) = (if u = - (2 ^ 31) then - (2 ^ 31) else - u)"
    if "int32 u" "u < 0" for u
  proof (cases "u = - (2 ^ 31)")
    case True
    then show ?thesis by (simp add: int32_wrap_def)
  next
    case False
    with that have "0 \<le> - u + 2 ^ 31" "- u + 2 ^ 31 < 2 ^ 32" by (simp_all add: int32_def)
    then have "(- u + 2 ^ 31) mod 2 ^ 32 = - u + 2 ^ 31" by (rule mod_pos_pos_trivial)
    with False show ?thesis by (simp add: int32_wrap_def)
  qed
  from assms(5) w [OF assms(1,3)] w [OF assms(2,4)] assms(3,4) show ?thesis
    by (auto split: if_splits)
qed

lemma pxValueName_inj:
  assumes "int32 v" "int32 w" "pxValueName v = pxValueName w"
  shows "v = w"
proof (cases "v < 0"; cases "w < 0")
  assume "v < 0" "w < 0"
  with assms(3) have "number (int32_wrap (- v)) = number (int32_wrap (- w))"
    by (simp add: pxValueName_def)
  from number_inj [OF this] assms(1,2) \<open>v < 0\<close> \<open>w < 0\<close> show ?thesis
    by (rule int32_wrap_neg_inj [rotated -1])
next
  assume "v < 0" "\<not> w < 0"
  with assms(3) show ?thesis by (auto simp: pxValueName_def number_not_m)
next
  assume "\<not> v < 0" "w < 0"
  with assms(3) show ?thesis by (auto simp: pxValueName_def number_not_m)
next
  assume "\<not> v < 0" "\<not> w < 0"
  with assms(3) show ?thesis by (auto simp: pxValueName_def dest: number_inj)
qed


subsection \<open>One constant per value\<close>

lemma filter_single:
  assumes "distinct (map snd xs)" "(a, v) \<in> set xs"
  shows "filter (\<lambda>d. snd d = v) xs = [(a, v)]"
  using assms
proof (induction xs)
  case Nil
  then show ?case by simp
next
  case (Cons x xs)
  show ?case
  proof (cases "x = (a, v)")
    case True
    with Cons.prems(1) have "v \<notin> snd ` set xs" by simp
    then have "filter (\<lambda>d. snd d = v) xs = []" by (auto simp: filter_empty_conv)
    with True show ?thesis by simp
  next
    case False
    with Cons.prems have in_xs: "(a, v) \<in> set xs" and d: "distinct (map snd xs)" by simp_all
    from in_xs have "v \<in> snd ` set xs" by force
    with Cons.prems(1) have "snd x \<noteq> v" by auto
    with Cons.IH [OF d in_xs] show ?thesis by simp
  qed
qed

text \<open>
  Claim C8. The collector keys pixel quantities by their signed value: when collection
  succeeds, the constants declared are exactly the values that occur (in \<^verbatim>\<open>Pixels\<close>,
  \<^verbatim>\<open>Point\<close>, \<^verbatim>\<open>Size\<close>, \<^verbatim>\<open>Margins\<close>, the size of a \<^verbatim>\<open>Font\<close>, the offsets of \<^verbatim>\<open>Icon\<close> parts,
  aliases left out), every value that occurs, however often, has exactly one constant,
  no two constants share a name, and two different values (such as 12 and -12) have
  different names.
\<close>

theorem unique_px_constants:
  assumes run: "collectUniqueValues vars = (True, c)"
    and range: "\<forall>v \<in> set (px_occurrences_fields vars). int32 v"
  shows "set (map snd (px_constants c)) = set (px_occurrences_fields vars) \<and>
         distinct (map fst (px_constants c)) \<and>
         (\<forall>v \<in> set (px_occurrences_fields vars).
            filter (\<lambda>d. snd d = v) (px_constants c) = [(pxValueName v, v)]) \<and>
         (\<forall>v \<in> set (px_occurrences_fields vars). \<forall>w \<in> set (px_occurrences_fields vars).
            v \<noteq> w \<longrightarrow> pxValueName v \<noteq> pxValueName w)"
proof -
  have start: "px_sorted collected_start" "px_keys collected_start = {}"
    by (simp_all add: px_sorted_def px_keys_def collected_start_def)
  from collect_fields_px [OF start(1), of vars] run
  have sorted: "px_sorted c" and keys: "px_keys c = set (px_occurrences_fields vars)"
    by (simp_all add: collectUniqueValues_def enumVariables_collector start(2))
  have vals: "map snd (px_constants c) = map fst (pxValues c)"
    by (simp add: px_constants_def case_prod_unfold comp_def)
  have names: "map fst (px_constants c) = map pxValueName (map fst (pxValues c))"
    by (simp add: px_constants_def case_prod_unfold comp_def)
  have dk: "distinct (map fst (pxValues c))"
    using sorted by (simp add: px_sorted_def strict_sorted_iff)
  have a: "set (map snd (px_constants c)) = set (px_occurrences_fields vars)"
    using keys by (simp add: vals px_keys_def)
  have inj: "inj_on pxValueName (set (map fst (pxValues c)))"
    using range keys by (auto simp: inj_on_def px_keys_def intro: pxValueName_inj)
  have b: "distinct (map fst (px_constants c))"
    unfolding names using dk inj
    by (simp only: distinct_map [of pxValueName "map fst (pxValues c)"] simp_thms)
  have c: "filter (\<lambda>d. snd d = v) (px_constants c) = [(pxValueName v, v)]"
    if "v \<in> set (px_occurrences_fields vars)" for v
  proof -
    from that keys have "v \<in> fst ` set (pxValues c)" by (simp add: px_keys_def)
    then have "(pxValueName v, v) \<in> set (px_constants c)"
      by (force simp: px_constants_def)
    with dk show ?thesis by (intro filter_single) (simp_all add: vals)
  qed
  have d: "pxValueName v \<noteq> pxValueName w"
    if "v \<in> set (px_occurrences_fields vars)" "w \<in> set (px_occurrences_fields vars)" "v \<noteq> w"
    for v w
    using that range pxValueName_inj [of v w] by blast
  from a b c d show ?thesis by blast
qed


theorem unique_px_constants_witness:
  "fst (collectUniqueValues example_style_module) \<and>
   px_occurrences_fields example_style_module = [12, 12, - 12, 12, 12, 0, 12, 0] \<and>
   px_constants (snd (collectUniqueValues example_style_module)) =
     [(''pxm12'', - 12), (''px0'', 0), (''px12'', 12)] \<and>
   set (map snd (px_constants (snd (collectUniqueValues example_style_module)))) =
     set (px_occurrences_fields example_style_module) \<and>
   distinct (map fst (px_constants (snd (collectUniqueValues example_style_module)))) \<and>
   filter (\<lambda>d. snd d = 12) (px_constants (snd (collectUniqueValues example_style_module))) =
     [(pxValueName 12, 12)] \<and>
   filter (\<lambda>d. snd d = - 12) (px_constants (snd (collectUniqueValues example_style_module))) =
     [(pxValueName (- 12), - 12)] \<and>
   pxValueName 12 \<noteq> pxValueName (- 12)"
proof -
  have run: "collectUniqueValues example_style_module =
      (True, snd (collectUniqueValues example_style_module))" by code_simp
  have range: "\<forall>v \<in> set (px_occurrences_fields example_style_module). int32 v" by code_simp
  have ok: "fst (collectUniqueValues example_style_module)" by code_simp
  have occ: "px_occurrences_fields example_style_module = [12, 12, - 12, 12, 12, 0, 12, 0]"
    by code_simp
  have pc: "px_constants (snd (collectUniqueValues example_style_module)) =
     [(''pxm12'', - 12), (''px0'', 0), (''px12'', 12)]" by code_simp
  have m: "12 \<in> set (px_occurrences_fields example_style_module)"
    "- 12 \<in> set (px_occurrences_fields example_style_module)" unfolding occ by simp_all
  have ne: "(12 :: int) \<noteq> - 12" by simp
  from unique_px_constants [OF run range] m ok occ pc ne show ?thesis by blast
qed

end
